theory Spec2Isabelle
  imports Main "HOL-Library.Word" "HOL-Library.List_Lexorder" "HOL-Library.Multiset"
    "HOL-Library.AList"
begin

section \<open>Data model of the analyzer (analyzer.go)\<close>

text \<open>
  A Go \<open>rune\<close> is a signed 32-bit code point; the analyzer only compares runes, so they
  are integers here. A Go string is modelled by the sequence of its code points (the
  strings the analyzer handles are UTF-8 text, on which the byte-wise prefix, suffix and
  ordering operations of the \<open>strings\<close> package agree with the code-point-wise ones).
  Node, edge and payload indices are \<open>uint32\<close>, window lengths \<open>uint16\<close>.
\<close>

type_synonym rune = int
type_synonym gostring = "rune list"
type_synonym u32 = "32 word"
type_synonym u16 = "16 word"

record MorphInfo =
  LemmaID :: u32
  TagsID :: u32
  ParadigmID :: u32

record PredictInfo =
  Frequency :: u16
  PParadigmID :: u32
  FormIdx :: u32
  PTagsID :: u32

record FlatNode =
  PayloadIdx :: u32
  EdgesIdx :: u32
  PayloadLen :: u16
  EdgesLen :: u16
  IsFinal :: bool

record FlatEdge =
  Char :: rune
  NodeID :: u32

record ParadigmInfo =
  Stem :: gostring
  StemNodeID :: u32

text \<open>
  What a call does: it returns a value, or it stops with a Go run-time panic (an index
  or a slice bound out of range), or the recursion budget of the model is used up
  before it returns.
\<close>

datatype 'a outcome = Returns 'a | Panics | OutOfFuel

fun obind :: "'a outcome \<Rightarrow> ('a \<Rightarrow> 'b outcome) \<Rightarrow> 'b outcome" where
  "obind (Returns x) f = f x"
| "obind Panics f = Panics"
| "obind OutOfFuel f = OutOfFuel"

text \<open>Go's \<open>xs[i]\<close> and \<open>xs[lo:hi]\<close> on a slice whose capacity is its length.\<close>

definition index_at :: "'a list \<Rightarrow> u32 \<Rightarrow> 'a outcome" where
  "index_at xs i = (if unat i < length xs then Returns (xs ! unat i) else Panics)"

definition slice :: "'a list \<Rightarrow> u32 \<Rightarrow> u32 \<Rightarrow> 'a list outcome" where
  "slice xs lo hi =
     (if unat lo \<le> unat hi \<and> unat hi \<le> length xs
      then Returns (take (unat hi - unat lo) (drop (unat lo) xs))
      else Panics)"

subsection \<open>The traversal primitive\<close>

text \<open>
  \<open>sort.Search(n, f)\<close> of the Go library: the loop
  \<^verbatim>\<open>i, j := 0, n; for i < j { h := int(uint(i+j) >> 1); if !f(h) { i = h + 1 } else { j = h } }; return i\<close>
\<close>

function sort_Search_loop :: "(nat \<Rightarrow> bool) \<Rightarrow> nat \<Rightarrow> nat \<Rightarrow> nat" where
  "sort_Search_loop f i j =
     (if i < j
      then (let h = (i + j) div 2
            in if \<not> f h then sort_Search_loop f (h + 1) j else sort_Search_loop f i h)
      else i)"
  by pat_completeness auto
termination
  by (relation "measure (\<lambda>(f, i, j). j - i)") auto

declare sort_Search_loop.simps [simp del]

definition sort_Search :: "nat \<Rightarrow> (nat \<Rightarrow> bool) \<Rightarrow> nat" where
  "sort_Search n f = sort_Search_loop f 0 n"

definition findChildGeneral ::
  "u32 \<Rightarrow> rune \<Rightarrow> FlatNode list \<Rightarrow> FlatEdge list \<Rightarrow> (u32 \<times> bool) outcome" where
  "findChildGeneral nodeIndex char nodes edges =
     obind (index_at nodes nodeIndex) (\<lambda>node.
       if EdgesLen node = 0 then Returns (0, False)
       else
         obind (slice edges (EdgesIdx node) (EdgesIdx node + ucast (EdgesLen node)))
           (\<lambda>searchSlice.
              let i = sort_Search (length searchSlice) (\<lambda>i. Char (searchSlice ! i) \<ge> char)
              in if i < length searchSlice \<and> Char (searchSlice ! i) = char
                 then Returns (NodeID (searchSlice ! i), True)
                 else Returns (0, False)))"

text \<open>
  The edge window of a node, as the data model describes it: the \<open>EdgesLen\<close> edges from
  \<open>EdgesIdx\<close> on. It lies inside the edge array when its end neither exceeds the array
  nor wraps around in \<open>uint32\<close>.
\<close>

definition edge_window :: "FlatNode \<Rightarrow> FlatEdge list \<Rightarrow> FlatEdge list" where
  "edge_window node edges = take (unat (EdgesLen node)) (drop (unat (EdgesIdx node)) edges)"

definition edge_window_ok :: "FlatNode \<Rightarrow> FlatEdge list \<Rightarrow> bool" where
  "edge_window_ok node edges \<longleftrightarrow>
     unat (EdgesIdx node) + unat (EdgesLen node) \<le> length edges \<and>
     unat (EdgesIdx node) + unat (EdgesLen node) < 2 ^ 32"


text \<open>What \<open>sort.Search\<close> establishes on a predicate that is monotone on \<open>[0, n)\<close>.\<close>

definition search_post :: "nat \<Rightarrow> (nat \<Rightarrow> bool) \<Rightarrow> nat \<Rightarrow> bool" where
  "search_post n f r \<longleftrightarrow> r \<le> n \<and> (\<forall>k<r. \<not> f k) \<and> (\<forall>k. r \<le> k \<and> k < n \<longrightarrow> f k)"

section \<open>Tag decomposition (tagset.go)\<close>

text \<open>
  The vocabularies of \<open>tagset.go\<close>. Each entry is the code-point sequence of the Go
  string literal, in the order of the source (Cyrillic letters are U+0410 to U+044F,
  32 is the space, 45 the hyphen, 49 to 51 the digits 1 to 3).
\<close>

definition posTags :: "gostring list" where
  "posTags =
     [[1057, 1091, 1097, 1077, 1089, 1090, 1074, 1080, 1090, 1077, 1083, 1100, 1085, 1086, 1077],
      [1055, 1088, 1080, 1083, 1072, 1075, 1072, 1090, 1077, 1083, 1100, 1085, 1086, 1077],
      [1043, 1083, 1072, 1075, 1086, 1083],
      [1053, 1072, 1088, 1077, 1095, 1080, 1077],
      [1055, 1088, 1080, 1095, 1072, 1089, 1090, 1080, 1077],
      [1044, 1077, 1077, 1087, 1088, 1080, 1095, 1072, 1089, 1090, 1080, 1077],
      [1052, 1077, 1089, 1090, 1086, 1080, 1084, 1077, 1085, 1080, 1077],
      [1063, 1080, 1089, 1083, 1080, 1090, 1077, 1083, 1100, 1085, 1086, 1077],
      [1055, 1088, 1077, 1076, 1083, 1086, 1075],
      [1063, 1072, 1089, 1090, 1080, 1094, 1072],
      [1057, 1086, 1102, 1079],
      [1052, 1077, 1078, 1076, 1086, 1084, 1077, 1090, 1080, 1077],
      [1042, 1074, 1086, 1076, 1085, 1086, 1077, 32, 1089, 1083, 1086, 1074, 1086]]"

definition animacyTags :: "gostring list" where
  "animacyTags =
     [[1054, 1076, 1091, 1096, 1077, 1074, 1083, 1077, 1085, 1085, 1086, 1077],
      [1053, 1077, 1086, 1076, 1091, 1096, 1077, 1074, 1083, 1077, 1085, 1085, 1086, 1077],
      [1086, 1076, 1091, 1096, 1077, 1074, 1083, 1077, 1085, 1085, 1086, 1077, 32, 1080, 32, 1085, 1077, 1086, 1076, 1091, 1096, 1077, 1074, 1083, 1077, 1085, 1085, 1086, 1077]]"

definition aspectTags :: "gostring list" where
  "aspectTags =
     [[1057, 1086, 1074, 1077, 1088, 1096, 1077, 1085, 1085, 1099, 1081],
      [1053, 1077, 1089, 1086, 1074, 1077, 1088, 1096, 1077, 1085, 1085, 1099, 1081],
      [1044, 1074, 1091, 1074, 1080, 1076, 1086, 1074, 1086, 1081]]"

definition caseTags :: "gostring list" where
  "caseTags =
     [[1048, 1084, 1077, 1085, 1080, 1090, 1077, 1083, 1100, 1085, 1099, 1081],
      [1056, 1086, 1076, 1080, 1090, 1077, 1083, 1100, 1085, 1099, 1081],
      [1044, 1072, 1090, 1077, 1083, 1100, 1085, 1099, 1081],
      [1042, 1080, 1085, 1080, 1090, 1077, 1083, 1100, 1085, 1099, 1081],
      [1058, 1074, 1086, 1088, 1080, 1090, 1077, 1083, 1100, 1085, 1099, 1081],
      [1055, 1088, 1077, 1076, 1083, 1086, 1078, 1085, 1099, 1081],
      [1047, 1074, 1072, 1090, 1077, 1083, 1100, 1085, 1099, 1081],
      [1052, 1077, 1089, 1090, 1085, 1099, 1081],
      [1057, 1095, 1077, 1090, 1085, 1099, 1081],
      [1055, 1072, 1088, 1090, 1080, 1090, 1080, 1074, 1085, 1099, 1081],
      [1053, 1077, 1089, 1082, 1083, 1086, 1085, 1103, 1077, 1084, 1099, 1081],
      [1046, 1076, 1072, 1090, 1077, 1083, 1100, 1085, 1099, 1081]]"

definition genderTags :: "gostring list" where
  "genderTags =
     [[1052, 1091, 1078, 1089, 1082, 1086, 1081],
      [1046, 1077, 1085, 1089, 1082, 1080, 1081],
      [1057, 1088, 1077, 1076, 1085, 1080, 1081],
      [1054, 1073, 1097, 1080, 1081],
      [1055, 1072, 1088, 1085, 1099, 1081]]"

definition moodTags :: "gostring list" where
  "moodTags =
     [[1055, 1086, 1074, 1077, 1083, 1080, 1090, 1077, 1083, 1100, 1085, 1086, 1077]]"

definition numberTags :: "gostring list" where
  "numberTags =
     [[1045, 1076, 1080, 1085, 1089, 1090, 1074, 1077, 1085, 1085, 1086, 1077, 32, 1095, 1080, 1089, 1083, 1086],
      [1052, 1085, 1086, 1078, 1077, 1089, 1090, 1074, 1077, 1085, 1085, 1086, 1077, 32, 1095, 1080, 1089, 1083, 1086]]"

definition personTags :: "gostring list" where
  "personTags =
     [[49, 45, 1077, 32, 1083, 1080, 1094, 1086],
      [50, 45, 1077, 32, 1083, 1080, 1094, 1086],
      [51, 45, 1077, 32, 1083, 1080, 1094, 1086],
      [1085, 1077, 1090, 32, 1083, 1080, 1094, 1072]]"

definition tenseTags :: "gostring list" where
  "tenseTags =
     [[1055, 1088, 1086, 1096, 1077, 1076, 1096, 1077, 1077],
      [1053, 1072, 1089, 1090, 1086, 1103, 1097, 1077, 1077],
      [1041, 1091, 1076, 1091, 1097, 1077, 1077],
      [1041, 1091, 1076, 1091, 1097, 1077, 1077, 32, 1072, 1085, 1072, 1083, 1080, 1090, 1080, 1095, 1077, 1089, 1082, 1086, 1077]]"

definition transTags :: "gostring list" where
  "transTags =
     [[1055, 1077, 1088, 1077, 1093, 1086, 1076, 1085, 1099, 1081],
      [1053, 1077, 1087, 1077, 1088, 1077, 1093, 1086, 1076, 1085, 1099, 1081],
      [1051, 1072, 1073, 1080, 1083, 1100, 1085, 1099, 1081]]"

definition voiceTags :: "gostring list" where
  "voiceTags =
     [[1044, 1077, 1081, 1089, 1090, 1074, 1080, 1090, 1077, 1083, 1100, 1085, 1099, 1081],
      [1057, 1090, 1088, 1072, 1076, 1072, 1090, 1077, 1083, 1100, 1085, 1099, 1081]]"

record Parsed =
  Word :: gostring
  Lemma :: gostring
  Tags :: gostring
  PartOfSpeech :: gostring
  Animacy :: gostring
  Aspect :: gostring
  Case :: gostring
  Gender :: gostring
  Mood :: gostring
  Number :: gostring
  Person :: gostring
  Tense :: gostring
  Transitivity :: gostring
  Voice :: gostring
  OtherTags :: "gostring set"

definition inMap :: "gostring \<Rightarrow> gostring list \<Rightarrow> bool" where
  "inMap key tagset \<longleftrightarrow> key \<in> set tagset"

text \<open>
  \<open>strings.Split(s, ",")\<close>: the pieces of \<open>s\<close> between the commas (code point 44);
  the empty string gives one empty piece.
\<close>

fun strings_Split :: "gostring \<Rightarrow> gostring list" where
  "strings_Split [] = [[]]"
| "strings_Split (c # cs) =
     (if c = 44 then [] # strings_Split cs
      else (case strings_Split cs of [] \<Rightarrow> [[c]] | t # ts \<Rightarrow> (c # t) # ts))"

text \<open>The body of the loop of \<open>newParsed\<close>: the \<open>switch\<close> on one grammeme.\<close>

definition dispatch :: "Parsed \<Rightarrow> gostring \<Rightarrow> Parsed" where
  "dispatch p g =
     (if g = PartOfSpeech p then p
      else if inMap g animacyTags then p\<lparr>Animacy := g\<rparr>
      else if inMap g aspectTags then p\<lparr>Aspect := g\<rparr>
      else if inMap g caseTags then p\<lparr>Case := g\<rparr>
      else if inMap g genderTags then p\<lparr>Gender := g\<rparr>
      else if inMap g moodTags then p\<lparr>Mood := g\<rparr>
      else if inMap g numberTags then p\<lparr>Number := g\<rparr>
      else if inMap g personTags then p\<lparr>Person := g\<rparr>
      else if inMap g tenseTags then p\<lparr>Tense := g\<rparr>
      else if inMap g transTags then p\<lparr>Transitivity := g\<rparr>
      else if inMap g voiceTags then p\<lparr>Voice := g\<rparr>
      else p\<lparr>OtherTags := insert g (OtherTags p)\<rparr>)"

definition newParsed :: "gostring \<Rightarrow> gostring \<Rightarrow> gostring \<Rightarrow> Parsed" where
  "newParsed word lemma tagString =
     (let p = \<lparr>Word = word, Lemma = lemma, Tags = tagString, PartOfSpeech = [],
                Animacy = [], Aspect = [], Case = [], Gender = [], Mood = [], Number = [],
                Person = [], Tense = [], Transitivity = [], Voice = [], OtherTags = {}\<rparr>;
          grammemes = strings_Split tagString;
          p = (if length grammemes > 0
               then (if inMap (hd grammemes) posTags
                     then p\<lparr>PartOfSpeech := hd grammemes\<rparr> else p)
               else p)
      in foldl dispatch p grammemes)"

section \<open>The analyzer (analyzer.go)\<close>

record MorphAnalyzer =
  LemmaPool :: "gostring list"
  tagsPool :: "gostring list"
  paradigms :: "u32 \<rightharpoonup> ParadigmInfo list"
  paradigmToLemmaID :: "u32 \<rightharpoonup> u32"
  nodes :: "FlatNode list"
  edges :: "FlatEdge list"
  payloads :: "MorphInfo list"
  predictNodes :: "FlatNode list"
  predictEdges :: "FlatEdge list"
  predictPayloads :: "PredictInfo list"

record PredictionCandidate = PredictInfo +
  SuffixLen :: int

subsection \<open>Loops over fallible steps\<close>

fun ofoldl :: "('s \<Rightarrow> 'a \<Rightarrow> 's outcome) \<Rightarrow> 's \<Rightarrow> 'a list \<Rightarrow> 's outcome" where
  "ofoldl f s [] = Returns s"
| "ofoldl f s (x # xs) = obind (f s x) (\<lambda>s'. ofoldl f s' xs)"

fun omapM :: "('a \<Rightarrow> 'b outcome) \<Rightarrow> 'a list \<Rightarrow> 'b list outcome" where
  "omapM f [] = Returns []"
| "omapM f (x # xs) = obind (f x) (\<lambda>y. obind (omapM f xs) (\<lambda>ys. Returns (y # ys)))"

subsection \<open>Strings and sorting of the Go library\<close>

text \<open>
  \<open>strings.ToLower\<close> maps \<open>unicode.ToLower\<close> over the code points; the table of
  \<open>unicode.ToLower\<close> is a parameter \<open>lower\<close> of every operation that lower-cases.
\<close>

definition strings_ToLower :: "(rune \<Rightarrow> rune) \<Rightarrow> gostring \<Rightarrow> gostring" where
  "strings_ToLower lower s = map lower s"

text \<open>
  The conversion \<open>string(rs)\<close> of a rune slice: a rune that is no Unicode scalar value
  becomes U+FFFD.
\<close>

definition string_of_runes :: "rune list \<Rightarrow> gostring" where
  "string_of_runes rs =
     map (\<lambda>r. if 0 \<le> r \<and> r \<le> 1114111 \<and> \<not> (55296 \<le> r \<and> r \<le> 57343) then r else 65533) rs"

definition strings_HasPrefix :: "gostring \<Rightarrow> gostring \<Rightarrow> bool" where
  "strings_HasPrefix s pre \<longleftrightarrow> length s \<ge> length pre \<and> take (length pre) s = pre"

definition strings_HasSuffix :: "gostring \<Rightarrow> gostring \<Rightarrow> bool" where
  "strings_HasSuffix s suf \<longleftrightarrow>
     length s \<ge> length suf \<and> drop (length s - length suf) s = suf"

definition strings_TrimPrefix :: "gostring \<Rightarrow> gostring \<Rightarrow> gostring" where
  "strings_TrimPrefix s pre = (if strings_HasPrefix s pre then drop (length pre) s else s)"

definition strings_TrimSuffix :: "gostring \<Rightarrow> gostring \<Rightarrow> gostring" where
  "strings_TrimSuffix s suf =
     (if strings_HasSuffix s suf then take (length s - length suf) s else s)"

text \<open>The slice expression \<open>rs[i:]\<close> with an \<open>int\<close> bound.\<close>

definition runes_from :: "rune list \<Rightarrow> int \<Rightarrow> rune list outcome" where
  "runes_from rs i = (if 0 \<le> i \<and> i \<le> int (length rs) then Returns (drop (nat i) rs) else Panics)"

text \<open>
  \<open>sort.Slice\<close> of the Go library (Go 1.19 and later). On a slice of at most 12 elements
  it runs \<open>insertionSortLessFunc\<close>: each element in turn moves left while it is less than
  its left neighbour (\<open>bubble\<close> works on the reversed prefix). On a longer slice it runs
  the pattern-defeating quicksort of the library, which is not stable; that part of the
  library is a parameter \<open>pdq\<close> of every operation that sorts, and \<open>sortContract\<close> is
  what the library documents of it: for a comparison that is a strict weak ordering, the
  result is a rearrangement of the slice in which no element is less than an earlier one.
\<close>

type_synonym 'a sorter = "('a \<Rightarrow> 'a \<Rightarrow> bool) \<Rightarrow> 'a list \<Rightarrow> 'a list"

fun bubble :: "('a \<Rightarrow> 'a \<Rightarrow> bool) \<Rightarrow> 'a \<Rightarrow> 'a list \<Rightarrow> 'a list" where
  "bubble lt x [] = [x]"
| "bubble lt x (y # ys) = (if lt x y then y # bubble lt x ys else x # y # ys)"

definition insertionSortLessFunc :: "'a sorter" where
  "insertionSortLessFunc lt xs = rev (foldl (\<lambda>acc x. bubble lt x acc) [] xs)"

definition sort_Slice :: "'a sorter \<Rightarrow> 'a sorter" where
  "sort_Slice pdq lt xs = (if length xs \<le> 12 then insertionSortLessFunc lt xs else pdq lt xs)"

definition strictWeakOrder :: "('a \<Rightarrow> 'a \<Rightarrow> bool) \<Rightarrow> bool" where
  "strictWeakOrder lt \<longleftrightarrow>
     (\<forall>x y. lt x y \<longrightarrow> \<not> lt y x) \<and> (\<forall>x y z. \<not> lt x y \<and> \<not> lt y z \<longrightarrow> \<not> lt x z)"

definition sortContract :: "'a sorter \<Rightarrow> bool" where
  "sortContract pdq \<longleftrightarrow>
     (\<forall>lt xs. strictWeakOrder lt \<longrightarrow>
        mset (pdq lt xs) = mset xs \<and> sorted_wrt (\<lambda>y z. \<not> lt z y) (pdq lt xs))"

subsection \<open>Dictionary lookup\<close>

text \<open>
  The loop \<^verbatim>\<open>for _, char := range w { child, found := findChildGeneral(cur, char, ...); if !found { ... break/return }; cur = child }\<close>
  of \<open>Parse\<close>, \<open>Inflect\<close> and \<open>findBestPrediction\<close>: the node reached and whether the whole
  path exists.
\<close>

fun walk :: "FlatNode list \<Rightarrow> FlatEdge list \<Rightarrow> u32 \<Rightarrow> rune list \<Rightarrow> (u32 \<times> bool) outcome" where
  "walk ns es cur [] = Returns (cur, True)"
| "walk ns es cur (c # cs) =
     obind (findChildGeneral cur c ns es) (\<lambda>(childNodeIndex, found).
       if \<not> found then Returns (cur, False) else walk ns es childNodeIndex cs)"

definition Parse :: "(rune \<Rightarrow> rune) \<Rightarrow> MorphAnalyzer \<Rightarrow> gostring \<Rightarrow> Parsed list outcome" where
  "Parse lower a word =
     (let lowerWord = strings_ToLower lower word
      in obind (walk (nodes a) (edges a) 0 lowerWord) (\<lambda>(currentNodeIndex, found).
           if \<not> found then Returns []
           else
             obind (index_at (nodes a) currentNodeIndex) (\<lambda>node.
               if \<not> IsFinal node then Returns []
               else
                 obind (slice (payloads a) (PayloadIdx node)
                          (PayloadIdx node + ucast (PayloadLen node))) (\<lambda>window.
                   omapM (\<lambda>info.
                       obind (index_at (LemmaPool a) (LemmaID info)) (\<lambda>lemma.
                       obind (index_at (tagsPool a) (TagsID info)) (\<lambda>tags.
                         Returns (newParsed word lemma tags))))
                     window))))"

subsection \<open>Paradigm expansion\<close>

text \<open>
  A Go map that the code fills and then ranges over is an association list with distinct
  keys: \<open>m[k] = v\<close> is \<open>AList.update\<close>. \<open>findWord\<close> is the recursive closure of
  \<open>dfsGenerate\<close>; its first argument bounds the depth of the recursion.
\<close>

fun findWord ::
  "nat \<Rightarrow> MorphAnalyzer \<Rightarrow> rune list \<Rightarrow> u32 \<Rightarrow> u32 \<Rightarrow> rune list \<Rightarrow> (gostring \<times> u32) list
     \<Rightarrow> (gostring \<times> u32) list outcome" where
  "findWord 0 a prefix targetID currNodeIdx currentSuffix results = OutOfFuel"
| "findWord (Suc fuel) a prefix targetID currNodeIdx currentSuffix results =
     obind (index_at (nodes a) currNodeIdx) (\<lambda>currNode.
     obind (if IsFinal currNode
            then obind (slice (payloads a) (PayloadIdx currNode)
                          (PayloadIdx currNode + ucast (PayloadLen currNode))) (\<lambda>window.
                   Returns (foldl (\<lambda>res info.
                       if ParadigmID info = targetID
                       then AList.update (string_of_runes (prefix @ currentSuffix)) (TagsID info) res
                       else res) results window))
            else Returns results) (\<lambda>results1.
     obind (slice (edges a) (EdgesIdx currNode)
              (EdgesIdx currNode + ucast (EdgesLen currNode))) (\<lambda>window.
       ofoldl (\<lambda>res edge.
           findWord fuel a prefix targetID (NodeID edge) (currentSuffix @ [Char edge]) res)
         results1 window)))"

definition dfsGenerate ::
  "nat \<Rightarrow> MorphAnalyzer \<Rightarrow> u32 \<Rightarrow> rune list \<Rightarrow> u32 \<Rightarrow> (gostring \<times> u32) list
     \<Rightarrow> (gostring \<times> u32) list outcome" where
  "dfsGenerate fuel a nodeIndex prefix targetID results =
     findWord fuel a prefix targetID nodeIndex [] results"

definition getFormsByParadigmID :: "nat \<Rightarrow> MorphAnalyzer \<Rightarrow> u32 \<Rightarrow> gostring list outcome" where
  "getFormsByParadigmID fuel a pID =
     (case paradigms a pID of
        None \<Rightarrow> Returns []
      | Some paradigmInfoSlice \<Rightarrow>
          obind (ofoldl (\<lambda>resultsMap pInfo.
                    dfsGenerate fuel a (StemNodeID pInfo) (Stem pInfo) pID resultsMap)
                  [] paradigmInfoSlice) (\<lambda>resultsMap.
            if length resultsMap = 0 then Returns []
            else Returns (sort (map fst resultsMap))))"

text \<open>
  \<open>Inflect\<close> ranges over the map \<open>paradigmsToProcess\<close>, and Go leaves the order of that
  iteration open: it is the parameter \<open>rangeOrder\<close>, a rearrangement of the entries.
  \<open>inflectParadigm\<close> is the body of that loop: one paradigm, all its stems, every generated
  form put into \<open>finalResults\<close> unless the form is already a key.
\<close>

definition inflectParadigm ::
  "nat \<Rightarrow> MorphAnalyzer \<Rightarrow> (gostring \<times> Parsed) list \<Rightarrow> u32 \<times> gostring
     \<Rightarrow> (gostring \<times> Parsed) list outcome" where
  "inflectParadigm fuel a finalResults entry =
     (case entry of (pID, lemma) \<Rightarrow>
        (case paradigms a pID of
           None \<Rightarrow> Returns finalResults
         | Some paradigmInfoSlice \<Rightarrow>
             ofoldl (\<lambda>fr pInfo.
                 obind (dfsGenerate fuel a (StemNodeID pInfo) (Stem pInfo) pID [])
                   (\<lambda>generatedForms.
                      ofoldl (\<lambda>fr2 (form, tagsID).
                          if map_of fr2 form \<noteq> None then Returns fr2
                          else obind (index_at (tagsPool a) tagsID) (\<lambda>tags.
                                 Returns (fr2 @ [(form, newParsed form lemma tags)])))
                        fr generatedForms))
               finalResults paradigmInfoSlice))"

definition Inflect ::
  "(rune \<Rightarrow> rune) \<Rightarrow> ((u32 \<times> gostring) list \<Rightarrow> (u32 \<times> gostring) list)
     \<Rightarrow> Parsed sorter \<Rightarrow> nat \<Rightarrow> MorphAnalyzer \<Rightarrow> gostring \<Rightarrow> Parsed list outcome" where
  "Inflect lower rangeOrder pdq fuel a word =
     obind (Parse lower a word) (\<lambda>initialParses.
       if length initialParses = 0 then Returns []
       else
         obind (walk (nodes a) (edges a) 0 (strings_ToLower lower word))
           (\<lambda>(currentNodeIndex, pathFound).
         obind (if pathFound
                then obind (index_at (nodes a) currentNodeIndex) (\<lambda>node.
                     obind (slice (payloads a) (PayloadIdx node)
                              (PayloadIdx node + ucast (PayloadLen node))) (\<lambda>window.
                       ofoldl (\<lambda>m info.
                           obind (index_at (LemmaPool a) (LemmaID info)) (\<lambda>lemma.
                             Returns (AList.update (ParadigmID info) lemma m)))
                         [] window))
                else Returns []) (\<lambda>paradigmsToProcess.
         obind (ofoldl (inflectParadigm fuel a) [] (rangeOrder paradigmsToProcess))
           (\<lambda>finalResults.
              if length finalResults = 0 then Returns []
              else Returns (sort_Slice pdq (\<lambda>p q. Word p < Word q)
                             (map snd finalResults))))))"

subsection \<open>Suffix predictor\<close>

definition candLess :: "PredictionCandidate \<Rightarrow> PredictionCandidate \<Rightarrow> bool" where
  "candLess ci cj =
     (if SuffixLen ci \<noteq> SuffixLen cj then SuffixLen ci > SuffixLen cj
      else Frequency ci > Frequency cj)"

definition mkCandidate :: "PredictInfo \<Rightarrow> int \<Rightarrow> PredictionCandidate" where
  "mkCandidate p suffixLen =
     \<lparr>Frequency = Frequency p, PParadigmID = PParadigmID p, FormIdx = FormIdx p,
      PTagsID = PTagsID p, SuffixLen = suffixLen\<rparr>"

text \<open>
  The loop \<^verbatim>\<open>for suffixLen := 5; suffixLen >= 1; suffixLen--\<close> of \<open>findBestPrediction\<close>;
  the first argument is the current \<open>suffixLen\<close>.
\<close>

fun collectCandidates ::
  "nat \<Rightarrow> MorphAnalyzer \<Rightarrow> rune list \<Rightarrow> PredictionCandidate list
     \<Rightarrow> PredictionCandidate list outcome" where
  "collectCandidates 0 a runes candidates = Returns candidates"
| "collectCandidates (Suc k) a runes candidates =
     (let suffixLen = Suc k
      in if suffixLen > length runes then collectCandidates k a runes candidates
         else
           (let suffix = string_of_runes (drop (length runes - suffixLen) runes)
            in obind (walk (predictNodes a) (predictEdges a) 0 suffix)
                 (\<lambda>(currentNodeIndex, foundSuffix).
                    if \<not> foundSuffix then collectCandidates k a runes candidates
                    else
                      obind (index_at (predictNodes a) currentNodeIndex) (\<lambda>node.
                        if \<not> IsFinal node then collectCandidates k a runes candidates
                        else
                          obind (slice (predictPayloads a) (PayloadIdx node)
                                   (PayloadIdx node + ucast (PayloadLen node))) (\<lambda>window.
                            collectCandidates k a runes
                              (candidates @ map (\<lambda>p. mkCandidate p (int suffixLen)) window))))))"

definition findBestPrediction ::
  "PredictionCandidate sorter \<Rightarrow> MorphAnalyzer \<Rightarrow> gostring
     \<Rightarrow> PredictionCandidate option outcome" where
  "findBestPrediction pdq a word =
     obind (collectCandidates 5 a word []) (\<lambda>candidates.
       if length candidates = 0 then Returns None
       else Returns (Some (hd (sort_Slice pdq candLess candidates))))"

text \<open>
  The cascade of \<open>ParsePredicted\<close> that computes \<open>predictedLemma\<close> from the winning rule,
  the lower-cased word and the forms of the template paradigm.
\<close>

definition proportionalLemma ::
  "MorphAnalyzer \<Rightarrow> PredictionCandidate \<Rightarrow> gostring \<Rightarrow> gostring list \<Rightarrow> gostring outcome" where
  "proportionalLemma a best lowerWord allFormsOfTemplate =
     (case paradigmToLemmaID a (PParadigmID best) of
        None \<Rightarrow> Returns lowerWord
      | Some lemmaID \<Rightarrow>
          if length allFormsOfTemplate = 0
             \<or> int (unat (FormIdx best)) \<ge> int (length allFormsOfTemplate)
          then Returns lowerWord
          else
            (let wordOfTemplate = allFormsOfTemplate ! unat (FormIdx best)
             in obind (index_at (LemmaPool a) lemmaID) (\<lambda>lemmaOfTemplate.
                  if int (length wordOfTemplate) < SuffixLen best
                  then Returns lowerWord
                  else
                    obind (runes_from lowerWord (int (length lowerWord) - SuffixLen best))
                      (\<lambda>suffixRunes.
                         let commonSuffix = string_of_runes suffixRunes
                         in if \<not> strings_HasSuffix wordOfTemplate commonSuffix
                            then Returns lowerWord
                            else
                              (let oovPrefix = strings_TrimSuffix lowerWord commonSuffix;
                                   templateWordPrefix =
                                     strings_TrimSuffix wordOfTemplate commonSuffix
                               in if \<not> strings_HasPrefix lemmaOfTemplate templateWordPrefix
                                  then Returns lowerWord
                                  else Returns (oovPrefix @
                                         strings_TrimPrefix lemmaOfTemplate
                                           templateWordPrefix))))))"

definition ParsePredicted ::
  "(rune \<Rightarrow> rune) \<Rightarrow> PredictionCandidate sorter \<Rightarrow> nat \<Rightarrow> MorphAnalyzer \<Rightarrow> gostring
     \<Rightarrow> Parsed list outcome" where
  "ParsePredicted lower pdq fuel a word =
     (let lowerWord = strings_ToLower lower word
      in obind (findBestPrediction pdq a lowerWord) (\<lambda>best_opt.
           case best_opt of
             None \<Rightarrow> Returns []
           | Some best \<Rightarrow>
               obind (getFormsByParadigmID fuel a (PParadigmID best)) (\<lambda>allFormsOfTemplate.
               obind (proportionalLemma a best lowerWord allFormsOfTemplate)
                 (\<lambda>predictedLemma.
                    obind (index_at (tagsPool a) (PTagsID best)) (\<lambda>tags.
                      Returns [newParsed word predictedLemma tags])))))"

definition Predict ::
  "(rune \<Rightarrow> rune) \<Rightarrow> PredictionCandidate sorter \<Rightarrow> Parsed sorter \<Rightarrow> nat \<Rightarrow> MorphAnalyzer
     \<Rightarrow> gostring \<Rightarrow> gostring \<Rightarrow> Parsed list outcome" where
  "Predict lower pdqC pdq fuel a word lemma =
     (let lowerWord = strings_ToLower lower word
      in obind (findBestPrediction pdqC a lowerWord) (\<lambda>best_opt.
           case best_opt of
             None \<Rightarrow> Returns []
           | Some best \<Rightarrow>
               obind (getFormsByParadigmID fuel a (PParadigmID best)) (\<lambda>allFormsInParadigm.
                 if length allFormsInParadigm = 0
                    \<or> int (unat (FormIdx best)) \<ge> int (length allFormsInParadigm)
                 then Returns []
                 else
                   (let wordOfTemplate = allFormsInParadigm ! unat (FormIdx best)
                    in if int (length wordOfTemplate) < SuffixLen best then Returns []
                       else
                         obind (runes_from lowerWord (int (length lowerWord) - SuffixLen best))
                           (\<lambda>suffixRunes.
                              let commonSuffix = string_of_runes suffixRunes
                              in if \<not> strings_HasSuffix wordOfTemplate commonSuffix
                                 then Returns []
                                 else
                                   (let inputPrefix = strings_TrimSuffix lowerWord commonSuffix;
                                        dictPrefix = strings_TrimSuffix wordOfTemplate commonSuffix
                                    in obind
                                         (ofoldl (\<lambda>formsAndTags pInfo.
                                              dfsGenerate fuel a (StemNodeID pInfo) (Stem pInfo)
                                                (PParadigmID best) formsAndTags)
                                            []
                                            (case paradigms a (PParadigmID best) of
                                               None \<Rightarrow> [] | Some paradigmInfoSlice \<Rightarrow> paradigmInfoSlice))
                                         (\<lambda>formsAndTags.
                                       obind
                                         (ofoldl (\<lambda>results (dictForm, tagsID).
                                              if strings_HasPrefix dictForm dictPrefix
                                              then obind (index_at (tagsPool a) tagsID) (\<lambda>tags.
                                                     Returns (results @
                                                       [newParsed
                                                          (inputPrefix @ strings_TrimPrefix dictForm dictPrefix)
                                                          lemma tags]))
                                              else Returns results)
                                            [] formsAndTags)
                                         (\<lambda>results.
                                            if length results = 0 then Returns []
                                            else Returns (sort_Slice pdq (\<lambda>p q. Word p < Word q)
                                                            results)))))))))"

subsection \<open>Top-level dispatch and the batch pipeline\<close>

definition Analyze ::
  "(rune \<Rightarrow> rune) \<Rightarrow> ((u32 \<times> gostring) list \<Rightarrow> (u32 \<times> gostring) list)
     \<Rightarrow> PredictionCandidate sorter \<Rightarrow> Parsed sorter \<Rightarrow> nat
     \<Rightarrow> MorphAnalyzer \<Rightarrow> gostring \<Rightarrow> (Parsed list \<times> Parsed list) outcome" where
  "Analyze lower rangeOrder pdqC pdq fuel a word =
     obind (Parse lower a word) (\<lambda>parses.
       if length parses > 0
       then obind (Inflect lower rangeOrder pdq fuel a word) (\<lambda>forms. Returns (parses, forms))
       else
         obind (ParsePredicted lower pdqC fuel a word) (\<lambda>predictedParses.
           if predictedParses = [] then Returns ([], [])
           else obind (Predict lower pdqC pdq fuel a word (Lemma (hd predictedParses)))
                  (\<lambda>predictedForms. Returns (predictedParses, predictedForms))))"

text \<open>
  \<open>ParseList\<close>: the dispatcher cuts \<open>words\<close> into chunks of 1000, each worker turns a chunk
  into the parses of its words, and the collector appends the chunk results in the
  order in which they arrive. That order depends on the scheduling of the goroutines: it
  is the parameter \<open>arrival\<close>, a rearrangement of the chunk results. A panic in a worker
  ends the program.
\<close>

definition chunkSize :: nat where
  "chunkSize = 1000"

definition chunksOf :: "gostring list \<Rightarrow> gostring list list" where
  "chunksOf words =
     map (\<lambda>k. take chunkSize (drop (k * chunkSize) words))
       [0..<(length words + chunkSize - 1) div chunkSize]"

definition parseWorker ::
  "(rune \<Rightarrow> rune) \<Rightarrow> ((u32 \<times> gostring) list \<Rightarrow> (u32 \<times> gostring) list)
     \<Rightarrow> PredictionCandidate sorter \<Rightarrow> Parsed sorter \<Rightarrow> nat
     \<Rightarrow> MorphAnalyzer \<Rightarrow> gostring list \<Rightarrow> Parsed list outcome" where
  "parseWorker lower rangeOrder pdqC pdq fuel a chunk =
     ofoldl (\<lambda>parsedChunk word.
         obind (Analyze lower rangeOrder pdqC pdq fuel a word) (\<lambda>(parses, forms).
           Returns (parsedChunk @ parses)))
       [] chunk"

definition ParseList ::
  "(rune \<Rightarrow> rune) \<Rightarrow> ((u32 \<times> gostring) list \<Rightarrow> (u32 \<times> gostring) list)
     \<Rightarrow> PredictionCandidate sorter \<Rightarrow> Parsed sorter \<Rightarrow> nat
     \<Rightarrow> (Parsed list list \<Rightarrow> Parsed list list)
     \<Rightarrow> MorphAnalyzer \<Rightarrow> gostring list \<Rightarrow> Parsed list outcome" where
  "ParseList lower rangeOrder pdqC pdq fuel arrival a words =
     obind (omapM (parseWorker lower rangeOrder pdqC pdq fuel a) (chunksOf words)) (\<lambda>results.
       Returns (sort_Slice pdq (\<lambda>p q. Word p < Word q) (concat (arrival results))))"

section \<open>A small lexicon\<close>

text \<open>
  A hand-built lexicon over the letters a (97), b (98), c (99), d (100) and x (120).
  Main graph: node 0 is the root, node 1 spells a, node 2 spells ab (final), node 3
  spells ac (final, with one entry of paradigm 1 and one of paradigm 2), node 4 spells d
  (final, paradigm 3). Paradigm 1 has the stem a at node 1, paradigm 2 the stem ac at
  node 3; paradigm 3 has the stem a at node 1, under which no form of paradigm 3 lies.
  Prediction graph: the suffixes b (node 1, two rules, of frequency 3 and 5), c (node 2)
  and xb (node 4) carry rules.
  The tag strings are the vocabulary entries 1043 1083 1072 1075 1086 1083 (a part of
  speech) and 1057 1086 1102 1079 (another one).
\<close>

definition lexNodes :: "FlatNode list" where
  "lexNodes =
     [\<lparr>PayloadIdx = 0, EdgesIdx = 0, PayloadLen = 0, EdgesLen = 2, IsFinal = False\<rparr>,
      \<lparr>PayloadIdx = 0, EdgesIdx = 2, PayloadLen = 0, EdgesLen = 2, IsFinal = False\<rparr>,
      \<lparr>PayloadIdx = 0, EdgesIdx = 4, PayloadLen = 1, EdgesLen = 0, IsFinal = True\<rparr>,
      \<lparr>PayloadIdx = 1, EdgesIdx = 4, PayloadLen = 2, EdgesLen = 0, IsFinal = True\<rparr>,
      \<lparr>PayloadIdx = 3, EdgesIdx = 4, PayloadLen = 1, EdgesLen = 0, IsFinal = True\<rparr>]"

definition lexEdges :: "FlatEdge list" where
  "lexEdges =
     [\<lparr>Char = 97, NodeID = 1\<rparr>, \<lparr>Char = 100, NodeID = 4\<rparr>,
      \<lparr>Char = 98, NodeID = 2\<rparr>, \<lparr>Char = 99, NodeID = 3\<rparr>]"

definition lexPayloads :: "MorphInfo list" where
  "lexPayloads =
     [\<lparr>LemmaID = 0, TagsID = 0, ParadigmID = 1\<rparr>,
      \<lparr>LemmaID = 0, TagsID = 1, ParadigmID = 1\<rparr>,
      \<lparr>LemmaID = 1, TagsID = 0, ParadigmID = 2\<rparr>,
      \<lparr>LemmaID = 1, TagsID = 0, ParadigmID = 3\<rparr>]"

definition lexPredictNodes :: "FlatNode list" where
  "lexPredictNodes =
     [\<lparr>PayloadIdx = 0, EdgesIdx = 0, PayloadLen = 0, EdgesLen = 3, IsFinal = False\<rparr>,
      \<lparr>PayloadIdx = 0, EdgesIdx = 3, PayloadLen = 2, EdgesLen = 0, IsFinal = True\<rparr>,
      \<lparr>PayloadIdx = 2, EdgesIdx = 3, PayloadLen = 1, EdgesLen = 0, IsFinal = True\<rparr>,
      \<lparr>PayloadIdx = 3, EdgesIdx = 3, PayloadLen = 0, EdgesLen = 1, IsFinal = False\<rparr>,
      \<lparr>PayloadIdx = 3, EdgesIdx = 4, PayloadLen = 1, EdgesLen = 0, IsFinal = True\<rparr>]"

definition lexPredictEdges :: "FlatEdge list" where
  "lexPredictEdges =
     [\<lparr>Char = 98, NodeID = 1\<rparr>, \<lparr>Char = 99, NodeID = 2\<rparr>, \<lparr>Char = 120, NodeID = 3\<rparr>,
      \<lparr>Char = 98, NodeID = 4\<rparr>]"

definition lexPredictPayloads :: "PredictInfo list" where
  "lexPredictPayloads =
     [\<lparr>Frequency = 3, PParadigmID = 1, FormIdx = 0, PTagsID = 0\<rparr>,
      \<lparr>Frequency = 5, PParadigmID = 1, FormIdx = 0, PTagsID = 1\<rparr>,
      \<lparr>Frequency = 1, PParadigmID = 1, FormIdx = 0, PTagsID = 1\<rparr>,
      \<lparr>Frequency = 1, PParadigmID = 1, FormIdx = 0, PTagsID = 1\<rparr>]"

definition lexA :: MorphAnalyzer where
  "lexA =
     \<lparr>LemmaPool = [[97, 98], [97, 99]],
      tagsPool = [[1043, 1083, 1072, 1075, 1086, 1083], [1057, 1086, 1102, 1079]],
      paradigms = [1 \<mapsto> [\<lparr>Stem = [97], StemNodeID = 1\<rparr>],
                   2 \<mapsto> [\<lparr>Stem = [97, 99], StemNodeID = 3\<rparr>],
                   3 \<mapsto> [\<lparr>Stem = [97], StemNodeID = 1\<rparr>]],
      paradigmToLemmaID = [1 \<mapsto> 0, 2 \<mapsto> 1, 3 \<mapsto> 1],
      nodes = lexNodes, edges = lexEdges, payloads = lexPayloads,
      predictNodes = lexPredictNodes, predictEdges = lexPredictEdges,
      predictPayloads = lexPredictPayloads\<rparr>"

text \<open>Lower-casing of the Latin capitals, as \<open>unicode.ToLower\<close> does it on them.\<close>

definition asciiLower :: "rune \<Rightarrow> rune" where
  "asciiLower r = (if 65 \<le> r \<and> r \<le> 90 then r + 32 else r)"

text \<open>
  The tag decomposition in the words of its description: the destination of a grammeme
  is the first category, in the fixed order, whose vocabulary has it, and the set of
  other tags if none has; \<open>categoryField\<close> reads the field of a category.
\<close>

datatype destination =
  DAnimacy | DAspect | DCase | DGender | DMood | DNumber | DPerson | DTense
  | DTransitivity | DVoice | DOther

definition destinationOf :: "gostring \<Rightarrow> destination" where
  "destinationOf g =
     (if g \<in> set animacyTags then DAnimacy
      else if g \<in> set aspectTags then DAspect
      else if g \<in> set caseTags then DCase
      else if g \<in> set genderTags then DGender
      else if g \<in> set moodTags then DMood
      else if g \<in> set numberTags then DNumber
      else if g \<in> set personTags then DPerson
      else if g \<in> set tenseTags then DTense
      else if g \<in> set transTags then DTransitivity
      else if g \<in> set voiceTags then DVoice
      else DOther)"

fun categoryField :: "destination \<Rightarrow> Parsed \<Rightarrow> gostring" where
  "categoryField DAnimacy p = Animacy p"
| "categoryField DAspect p = Aspect p"
| "categoryField DCase p = Case p"
| "categoryField DGender p = Gender p"
| "categoryField DMood p = Mood p"
| "categoryField DNumber p = Number p"
| "categoryField DPerson p = Person p"
| "categoryField DTense p = Tense p"
| "categoryField DTransitivity p = Transitivity p"
| "categoryField DVoice p = Voice p"
| "categoryField DOther p = []"

text \<open>The last element of a list of grammemes, the empty string for the empty list.\<close>

definition lastOr :: "gostring list \<Rightarrow> gostring" where
  "lastOr gs = (if gs = [] then [] else last gs)"

text \<open>Upper-casing of the Latin small letters, as \<open>unicode.ToUpper\<close> does it on them.\<close>

definition asciiUpper :: "rune \<Rightarrow> rune" where
  "asciiUpper r = (if 97 \<le> r \<and> r \<le> 122 then r - 32 else r)"

section \<open>Well-formed lexicons and the operations in the words of their description\<close>

text \<open>
  The invariants of the data model for one graph: a root exists; every edge and payload
  window lies inside its array (without wrapping around in \<open>uint32\<close>); every edge window
  is sorted strictly ascending by \<open>Char\<close>; every edge points to a node of the graph.
  \<open>final_nonempty\<close>: a final node carries at least one payload entry.
\<close>

definition payload_window :: "FlatNode \<Rightarrow> 'a list \<Rightarrow> 'a list" where
  "payload_window node ps = take (unat (PayloadLen node)) (drop (unat (PayloadIdx node)) ps)"

definition payload_window_ok :: "FlatNode \<Rightarrow> nat \<Rightarrow> bool" where
  "payload_window_ok node n \<longleftrightarrow>
     unat (PayloadIdx node) + unat (PayloadLen node) \<le> n \<and>
     unat (PayloadIdx node) + unat (PayloadLen node) < 2 ^ 32"

definition graph_ok :: "FlatNode list \<Rightarrow> FlatEdge list \<Rightarrow> nat \<Rightarrow> bool" where
  "graph_ok ns es n \<longleftrightarrow>
     ns \<noteq> [] \<and>
     (\<forall>node \<in> set ns.
        edge_window_ok node es \<and> payload_window_ok node n \<and>
        sorted_wrt (<) (map Char (edge_window node es)) \<and>
        (\<forall>e \<in> set (edge_window node es). unat (NodeID e) < length ns))"

definition final_nonempty :: "FlatNode list \<Rightarrow> bool" where
  "final_nonempty ns \<longleftrightarrow> (\<forall>node \<in> set ns. IsFinal node \<longrightarrow> PayloadLen node \<noteq> 0)"

text \<open>
  Walking a graph along a string, as the description of the traversal has it: from a
  node, the child for a character is the target of the edge of the node's window with
  that character, if there is one.
\<close>

fun specWalk :: "FlatNode list \<Rightarrow> FlatEdge list \<Rightarrow> u32 \<Rightarrow> rune list \<Rightarrow> u32 option" where
  "specWalk ns es cur [] = Some cur"
| "specWalk ns es cur (c # cs) =
     (case find (\<lambda>e. Char e = c) (edge_window (ns ! unat cur) es) of
        None \<Rightarrow> None
      | Some e \<Rightarrow> specWalk ns es (NodeID e) cs)"

text \<open>
  The candidates of the suffix scoring, as its description has them: for one suffix
  length \<open>k\<close>, the rules at the node that the last \<open>k\<close> characters of the word lead to,
  if the walk completes and the node is final; for the word, the candidates for
  \<open>k = 5, 4, 3, 2, 1\<close> in this order, skipping every \<open>k\<close> larger than the word.
\<close>

definition endsAtFinal :: "MorphAnalyzer \<Rightarrow> rune list \<Rightarrow> bool" where
  "endsAtFinal a suffix \<longleftrightarrow>
     (case specWalk (predictNodes a) (predictEdges a) 0 suffix of
        None \<Rightarrow> False
      | Some n \<Rightarrow> IsFinal (predictNodes a ! unat n))"

definition candidatesAt :: "MorphAnalyzer \<Rightarrow> rune list \<Rightarrow> nat \<Rightarrow> PredictionCandidate list" where
  "candidatesAt a w k =
     (if k > length w then []
      else
        (case specWalk (predictNodes a) (predictEdges a) 0 (drop (length w - k) w) of
           None \<Rightarrow> []
         | Some n \<Rightarrow>
             if IsFinal (predictNodes a ! unat n)
             then map (\<lambda>p. mkCandidate p (int k))
                    (payload_window (predictNodes a ! unat n) (predictPayloads a))
             else []))"

definition specCandidates :: "MorphAnalyzer \<Rightarrow> rune list \<Rightarrow> PredictionCandidate list" where
  "specCandidates a w = concat (map (candidatesAt a w) [5, 4, 3, 2, 1])"

text \<open>The code points that a Go string yields: the Unicode scalar values.\<close>

definition valid_runes :: "rune list \<Rightarrow> bool" where
  "valid_runes rs \<longleftrightarrow>
     (\<forall>r \<in> set rs. 0 \<le> r \<and> r \<le> 1114111 \<and> \<not> (55296 \<le> r \<and> r \<le> 57343))"

text \<open>
  The invariants of the data model for the whole lexicon: both graphs are well formed,
  every pool index of a payload entry, of a prediction rule and of the paradigm-to-lemma
  table is inside its pool, and every stem anchor is a node of the main graph.
  \<open>ranked\<close>: the graph is acyclic, every edge leads to a node of smaller rank.
\<close>

definition lexicon_ok :: "MorphAnalyzer \<Rightarrow> bool" where
  "lexicon_ok a \<longleftrightarrow>
     graph_ok (nodes a) (edges a) (length (payloads a)) \<and>
     graph_ok (predictNodes a) (predictEdges a) (length (predictPayloads a)) \<and>
     (\<forall>m \<in> set (payloads a).
        unat (LemmaID m) < length (LemmaPool a) \<and> unat (TagsID m) < length (tagsPool a)) \<and>
     (\<forall>p \<in> set (predictPayloads a). unat (PTagsID p) < length (tagsPool a)) \<and>
     (\<forall>pID infos. paradigms a pID = Some infos \<longrightarrow>
        (\<forall>pInfo \<in> set infos. unat (StemNodeID pInfo) < length (nodes a))) \<and>
     (\<forall>pID lemmaID. paradigmToLemmaID a pID = Some lemmaID \<longrightarrow>
        unat lemmaID < length (LemmaPool a))"

definition ranked :: "(nat \<Rightarrow> nat) \<Rightarrow> FlatNode list \<Rightarrow> FlatEdge list \<Rightarrow> bool" where
  "ranked rank ns es \<longleftrightarrow>
     (\<forall>i \<in> set [0..<length ns].
        \<forall>e \<in> set (edge_window (ns ! i) es). rank (unat (NodeID e)) < rank i)"

text \<open>
  When the analogical substitution is unsafe, in the words of the description of
  \<open>ParsePredicted\<close>: there is no template lemma, or the template form list is empty, or
  \<open>FormIdx\<close> is out of range, or the template word is shorter than the winning
  \<open>SuffixLen\<close>, or the template word does not end with the common suffix (the last
  \<open>SuffixLen\<close> characters of the word), or the template lemma does not start with the
  template prefix (the template word without the common suffix).
\<close>

definition substitutionUnsafe ::
  "MorphAnalyzer \<Rightarrow> PredictionCandidate \<Rightarrow> gostring \<Rightarrow> gostring list \<Rightarrow> bool" where
  "substitutionUnsafe a best w templateForms \<longleftrightarrow>
     (case paradigmToLemmaID a (PParadigmID best) of
        None \<Rightarrow> True
      | Some lemmaID \<Rightarrow>
          templateForms = [] \<or> unat (FormIdx best) \<ge> length templateForms \<or>
          (let templateWord = templateForms ! unat (FormIdx best);
               templateLemma = LemmaPool a ! unat lemmaID;
               commonSuffix = string_of_runes (drop (length w - nat (SuffixLen best)) w);
               templatePrefix = strings_TrimSuffix templateWord commonSuffix
           in int (length templateWord) < SuffixLen best \<or>
              \<not> strings_HasSuffix templateWord commonSuffix \<or>
              \<not> strings_HasPrefix templateLemma templatePrefix))"

text \<open>
  \<open>Inflect\<close> in the words of its description. The payload window at the terminal node of
  the lower-cased word (empty when the walk fails or the node is not final); the
  paradigms found there, each with the lemma of its last entry; the pairs that
  \<open>dfs_generate\<close> emits for one paradigm, stem after stem, each made into a parse record
  with the paradigm's lemma; all pairs of the word, paradigm after paradigm in the order
  of the iteration; and the list that keeps, for each key, the first pair with that key.
\<close>

definition terminalPayloads :: "(rune \<Rightarrow> rune) \<Rightarrow> MorphAnalyzer \<Rightarrow> gostring \<Rightarrow> MorphInfo list" where
  "terminalPayloads lower a w =
     (case specWalk (nodes a) (edges a) 0 (strings_ToLower lower w) of
        None \<Rightarrow> []
      | Some n \<Rightarrow>
          if IsFinal (nodes a ! unat n)
          then payload_window (nodes a ! unat n) (payloads a)
          else [])"

definition paradigmsToProcessOf ::
  "(rune \<Rightarrow> rune) \<Rightarrow> MorphAnalyzer \<Rightarrow> gostring \<Rightarrow> (u32 \<times> gostring) list" where
  "paradigmsToProcessOf lower a w =
     foldl (\<lambda>m info. AList.update (ParadigmID info) (LemmaPool a ! unat (LemmaID info)) m)
       [] (terminalPayloads lower a w)"

definition emittedBy :: "nat \<Rightarrow> MorphAnalyzer \<Rightarrow> u32 \<times> gostring \<Rightarrow> (gostring \<times> Parsed) list" where
  "emittedBy fuel a entry =
     (case entry of (pID, lemma) \<Rightarrow>
        concat (map (\<lambda>pInfo.
            case dfsGenerate fuel a (StemNodeID pInfo) (Stem pInfo) pID [] of
              Returns generatedForms \<Rightarrow>
                map (\<lambda>(form, tagsID). (form, newParsed form lemma (tagsPool a ! unat tagsID)))
                  generatedForms
            | _ \<Rightarrow> [])
          (case paradigms a pID of None \<Rightarrow> [] | Some infos \<Rightarrow> infos)))"

definition allEmitted ::
  "(rune \<Rightarrow> rune) \<Rightarrow> ((u32 \<times> gostring) list \<Rightarrow> (u32 \<times> gostring) list) \<Rightarrow> nat
     \<Rightarrow> MorphAnalyzer \<Rightarrow> gostring \<Rightarrow> (gostring \<times> Parsed) list" where
  "allEmitted lower rangeOrder fuel a w =
     concat (map (emittedBy fuel a) (rangeOrder (paradigmsToProcessOf lower a w)))"

definition keepFirst :: "('k \<times> 'v) list \<Rightarrow> 'k \<times> 'v \<Rightarrow> ('k \<times> 'v) list" where
  "keepFirst m kv = (if map_of m (fst kv) \<noteq> None then m else m @ [kv])"

definition firstOccurrences :: "('k \<times> 'v) list \<Rightarrow> ('k \<times> 'v) list" where
  "firstOccurrences kvs = foldl keepFirst [] kvs"

section \<open>Verified properties\<close>

subsection \<open>Machine arithmetic of the windows\<close>

lemma unat_ucast_u16: "unat (ucast (x :: u16) :: u32) = unat x"
proof -
  have "unat x < 2 ^ 16" using unsigned_less[of x] by simp
  then have "unat x < 2 ^ 32" by simp
  then show ?thesis by (simp add: unsigned_ucast_eq take_bit_nat_eq_self)
qed

lemma unat_add_ucast:
  fixes a :: u32 and l :: u16
  assumes "unat a + unat l < 2 ^ 32"
  shows "unat (a + ucast l) = unat a + unat l"
proof -
  have "unat a + unat (ucast l :: u32) < 2 ^ LENGTH(32)"
    using assms by (simp add: unat_ucast_u16)
  then have "unat (a + ucast l) = unat a + unat (ucast l :: u32)"
    by (rule unat_add_lem[THEN iffD1])
  then show ?thesis by (simp add: unat_ucast_u16)
qed

lemma slice_window:
  "edge_window_ok node es \<Longrightarrow>
   slice es (EdgesIdx node) (EdgesIdx node + ucast (EdgesLen node))
     = Returns (edge_window node es)"
  by (simp add: slice_def unat_add_ucast edge_window_def edge_window_ok_def)

subsection \<open>Binary search and the traversal primitive\<close>

lemma sort_Search_loop_stop: "\<not> i < j \<Longrightarrow> sort_Search_loop f i j = i"
  by (subst sort_Search_loop.simps) simp
lemma sort_Search_loop_right:
  "i < j \<Longrightarrow> \<not> f ((i + j) div 2) \<Longrightarrow>
   sort_Search_loop f i j = sort_Search_loop f ((i + j) div 2 + 1) j"
  by (subst sort_Search_loop.simps) (simp add: Let_def)
lemma sort_Search_loop_left:
  "i < j \<Longrightarrow> f ((i + j) div 2) \<Longrightarrow>
   sort_Search_loop f i j = sort_Search_loop f i ((i + j) div 2)"
  by (subst sort_Search_loop.simps) (simp add: Let_def)

lemma sort_Search_loop_spec:
  assumes mono: "\<And>a b. a \<le> b \<Longrightarrow> b < n \<Longrightarrow> f a \<Longrightarrow> f b"
  shows "i \<le> j \<Longrightarrow> j \<le> n \<Longrightarrow> (\<forall>k<i. \<not> f k) \<Longrightarrow> (\<forall>k. j \<le> k \<and> k < n \<longrightarrow> f k) \<Longrightarrow>
         search_post n f (sort_Search_loop f i j)"
proof (induction "j - i" arbitrary: i j rule: less_induct)
  case less
  show ?case
  proof (cases "i < j")
    case False
    then have "i = j" using less.prems by simp
    then show ?thesis using less.prems by (simp add: sort_Search_loop_stop search_post_def)
  next
    case True
    define h where "h = (i + j) div 2"
    have hb: "i \<le> h" "h < j" using True by (simp_all add: h_def)
    show ?thesis
    proof (cases "f h")
      case fh: True
      have up: "\<forall>k. h \<le> k \<and> k < n \<longrightarrow> f k" using mono fh by blast
      have "search_post n f (sort_Search_loop f i h)"
        by (rule less.hyps) (use hb less.prems up in simp_all)
      then show ?thesis using True fh by (simp add: sort_Search_loop_left h_def)
    next
      case nfh: False
      have lo: "\<forall>k<h + 1. \<not> f k"
      proof (intro allI impI)
        fix k assume "k < h + 1"
        then have kh: "k \<le> h" by simp
        have "h < n" using hb less.prems by simp
        then show "\<not> f k" using mono[OF kh] nfh by blast
      qed
      have "search_post n f (sort_Search_loop f (h + 1) j)"
        by (rule less.hyps) (use hb less.prems lo in simp_all)
      then show ?thesis using True nfh by (simp add: sort_Search_loop_right h_def)
    qed
  qed
qed

lemma sort_Search_spec:
  assumes mono: "\<And>a b. a \<le> b \<Longrightarrow> b < n \<Longrightarrow> f a \<Longrightarrow> f b"
  shows "search_post n f (sort_Search n f)"
  unfolding sort_Search_def
  by (rule sort_Search_loop_spec[OF mono]) auto

lemma findChild_found:
  assumes n: "unat n < length ns" and ne: "EdgesLen (ns ! unat n) \<noteq> 0"
    and ok: "edge_window_ok (ns ! unat n) es"
    and srt: "sorted_wrt (<) (map Char (edge_window (ns ! unat n) es))"
  shows "findChildGeneral n c ns es =
         (case find (\<lambda>e. Char e = c) (edge_window (ns ! unat n) es) of
            Some e \<Rightarrow> Returns (NodeID e, True) | None \<Rightarrow> Returns (0, False))"
proof -
  define w where "w = edge_window (ns ! unat n) es"
  define f where "f = (\<lambda>i. Char (w ! i) \<ge> c)"
  define r where "r = sort_Search (length w) f"
  have lt: "\<And>a b. a < b \<Longrightarrow> b < length w \<Longrightarrow> Char (w ! a) < Char (w ! b)"
    using srt unfolding w_def[symmetric] by (simp add: sorted_wrt_iff_nth_less)
  have mono: "\<And>a b. a \<le> b \<Longrightarrow> b < length w \<Longrightarrow> f a \<Longrightarrow> f b"
  proof -
    fix a b assume ab: "a \<le> b" "b < length w" "f a"
    show "f b"
    proof (cases "a = b")
      case True then show ?thesis using ab by simp
    next
      case False
      then have "Char (w ! a) < Char (w ! b)" using lt ab by simp
      then show ?thesis using ab by (simp add: f_def)
    qed
  qed
  have "search_post (length w) f r"
    unfolding r_def by (rule sort_Search_spec[OF mono])
  then have r1: "r \<le> length w" and r2: "\<And>k. k < r \<Longrightarrow> \<not> f k"
    and r3: "\<And>k. r \<le> k \<Longrightarrow> k < length w \<Longrightarrow> f k"
    by (simp_all add: search_post_def)
  have fc: "findChildGeneral n c ns es =
        (if r < length w \<and> Char (w ! r) = c then Returns (NodeID (w ! r), True) else Returns (0, False))"
    using n ne
    by (simp add: findChildGeneral_def index_at_def slice_window[OF ok] w_def[symmetric] Let_def
        f_def[symmetric] r_def[symmetric])
  show ?thesis
  proof (cases "r < length w \<and> Char (w ! r) = c")
    case True
    have "\<forall>j<r. \<not> Char (w ! j) = c" using r2 by (auto simp: f_def)
    then have "find (\<lambda>e. Char e = c) w = Some (w ! r)"
      using True by (auto simp: find_Some_iff)
    then show ?thesis using True fc by (simp add: w_def)
  next
    case False
    have "\<And>k. k < length w \<Longrightarrow> Char (w ! k) \<noteq> c"
    proof
      fix k assume k: "k < length w" "Char (w ! k) = c"
      then have "f k" by (simp add: f_def)
      then have rk: "r \<le> k" using r2 by (meson not_le)
      then have "f r" using r3 k by auto
      moreover have "r = k \<or> Char (w ! r) < Char (w ! k)"
      proof (cases "r = k")
        case False
        then have "r < k" using rk by simp
        from lt[OF this k(1)] show ?thesis by simp
      qed simp
      ultimately have "r < length w \<and> Char (w ! r) = c" using k rk by (auto simp: f_def)
      with False show False by simp
    qed
    then have "find (\<lambda>e. Char e = c) w = None"
      by (auto simp: find_None_iff in_set_conv_nth)
    then show ?thesis using False fc by (simp add: w_def)
  qed
qed

subsection \<open>C6: the traversal primitive finds the child\<close>

text \<open>
  C6. For a valid node index: \<open>findChildGeneral\<close> returns "not found" when the node's edge
  window is empty; and when the window is non-empty, lies inside the edge array and is
  sorted strictly ascending by \<open>Char\<close>, it returns the \<open>NodeID\<close> of the edge of the window
  whose \<open>Char\<close> is the character if there is one, and "not found" if there is none.
\<close>

theorem findChildGeneral_correct:
  assumes "unat nodeIndex < length ns"
  shows "(EdgesLen (ns ! unat nodeIndex) = 0 \<longrightarrow>
            findChildGeneral nodeIndex c ns es = Returns (0, False)) \<and>
         (EdgesLen (ns ! unat nodeIndex) \<noteq> 0 \<and> edge_window_ok (ns ! unat nodeIndex) es \<and>
          sorted_wrt (<) (map Char (edge_window (ns ! unat nodeIndex) es)) \<longrightarrow>
            (\<forall>e \<in> set (edge_window (ns ! unat nodeIndex) es).
               Char e = c \<longrightarrow> findChildGeneral nodeIndex c ns es = Returns (NodeID e, True)) \<and>
            (c \<notin> Char ` set (edge_window (ns ! unat nodeIndex) es) \<longrightarrow>
               findChildGeneral nodeIndex c ns es = Returns (0, False)))"
proof (intro conjI impI)
  assume "EdgesLen (ns ! unat nodeIndex) = 0"
  then show "findChildGeneral nodeIndex c ns es = Returns (0, False)"
    using assms by (simp add: findChildGeneral_def index_at_def)
next
  assume h: "EdgesLen (ns ! unat nodeIndex) \<noteq> 0 \<and> edge_window_ok (ns ! unat nodeIndex) es \<and>
          sorted_wrt (<) (map Char (edge_window (ns ! unat nodeIndex) es))"
  let ?w = "edge_window (ns ! unat nodeIndex) es"
  have fc: "findChildGeneral nodeIndex c ns es =
         (case find (\<lambda>e. Char e = c) ?w of
            Some e \<Rightarrow> Returns (NodeID e, True) | None \<Rightarrow> Returns (0, False))"
    using findChild_found[OF assms] h by blast
  have inj: "inj_on Char (set ?w)"
  proof -
    have "distinct (map Char ?w)" using h by (simp add: strict_sorted_iff)
    then show ?thesis by (simp add: distinct_map)
  qed
  show "\<forall>e \<in> set ?w. Char e = c \<longrightarrow> findChildGeneral nodeIndex c ns es = Returns (NodeID e, True)"
  proof (intro ballI impI)
    fix e assume e: "e \<in> set ?w" "Char e = c"
    then obtain e' where f: "find (\<lambda>e. Char e = c) ?w = Some e'"
      by (cases "find (\<lambda>e. Char e = c) ?w") (auto simp: find_None_iff)
    then have "e' \<in> set ?w" "Char e' = c" by (auto simp: find_Some_iff)
    then have "e' = e" using inj e by (auto dest: inj_onD)
    then show "findChildGeneral nodeIndex c ns es = Returns (NodeID e, True)"
      using fc f by simp
  qed
  show "findChildGeneral nodeIndex c ns es = Returns (0, False)"
    if "c \<notin> Char ` set ?w"
  proof -
    have "find (\<lambda>e. Char e = c) ?w = None" using that by (auto simp: find_None_iff)
    then show ?thesis using fc by simp
  qed
qed

theorem findChildGeneral_correct_witness:
  "unat (0::u32) < length lexPredictNodes \<and>
   EdgesLen (lexPredictNodes ! unat (0::u32)) \<noteq> 0 \<and>
   edge_window_ok (lexPredictNodes ! unat (0::u32)) lexPredictEdges \<and>
   sorted_wrt (<) (map Char (edge_window (lexPredictNodes ! unat (0::u32)) lexPredictEdges)) \<and>
   findChildGeneral 0 120 lexPredictNodes lexPredictEdges = Returns (3, True) \<and>
   findChildGeneral 0 100 lexPredictNodes lexPredictEdges = Returns (0, False) \<and>
   EdgesLen (lexPredictNodes ! unat (1::u32)) = 0 \<and>
   findChildGeneral 1 98 lexPredictNodes lexPredictEdges = Returns (0, False)"
proof -
  let ?w = "edge_window (lexPredictNodes ! unat (0::u32)) lexPredictEdges"
  have n0: "unat (0::u32) < length lexPredictNodes"
    and n1: "unat (1::u32) < length lexPredictNodes"
    by (simp_all add: lexPredictNodes_def)
  have w: "edge_window (lexPredictNodes ! 0) lexPredictEdges = [\<lparr>Char = 98, NodeID = 1\<rparr>, \<lparr>Char = 99, NodeID = 2\<rparr>, \<lparr>Char = 120, NodeID = 3\<rparr>]"
    by (simp add: edge_window_def lexPredictNodes_def lexPredictEdges_def)
  have h: "EdgesLen (lexPredictNodes ! unat (0::u32)) \<noteq> 0 \<and>
           edge_window_ok (lexPredictNodes ! unat (0::u32)) lexPredictEdges \<and>
           sorted_wrt (<) (map Char ?w)"
    by (simp add: w) (simp add: edge_window_ok_def lexPredictNodes_def lexPredictEdges_def)
  have z: "EdgesLen (lexPredictNodes ! unat (1::u32)) = 0"
    by (simp add: lexPredictNodes_def)
  have a: "findChildGeneral 0 120 lexPredictNodes lexPredictEdges
             = Returns (NodeID \<lparr>Char = 120, NodeID = 3\<rparr>, True)"
    using findChildGeneral_correct[OF n0, of 120 lexPredictEdges] h by (simp add: w)
  have b: "findChildGeneral 0 100 lexPredictNodes lexPredictEdges = Returns (0, False)"
    using findChildGeneral_correct[OF n0, of 100 lexPredictEdges] h by (simp add: w)
  have c: "findChildGeneral 1 98 lexPredictNodes lexPredictEdges = Returns (0, False)"
    using findChildGeneral_correct[OF n1, of 98 lexPredictEdges] z by simp
  show ?thesis using n0 h z a b c by simp
qed

subsection \<open>C10: tag decomposition\<close>

lemma strings_Split_nonempty: "strings_Split s \<noteq> []"
  by (induction s) (auto split: list.splits)

lemma dispatch_fixed:
  "Word (dispatch p g) = Word p \<and> Lemma (dispatch p g) = Lemma p \<and> Tags (dispatch p g) = Tags p
   \<and> PartOfSpeech (dispatch p g) = PartOfSpeech p"
  by (simp add: dispatch_def)

lemma dispatch_skip: "g = PartOfSpeech p \<Longrightarrow> dispatch p g = p"
  by (simp add: dispatch_def)

lemma dispatch_category:
  "g \<noteq> PartOfSpeech p \<Longrightarrow>
   categoryField d (dispatch p g) = (if destinationOf g = d \<and> d \<noteq> DOther then g else categoryField d p)"
  by (cases d) (simp_all add: dispatch_def destinationOf_def inMap_def)

lemma dispatch_other:
  "g \<noteq> PartOfSpeech p \<Longrightarrow>
   OtherTags (dispatch p g) = (if destinationOf g = DOther then insert g (OtherTags p) else OtherTags p)"
  by (simp add: dispatch_def destinationOf_def inMap_def)

lemma foldl_dispatch_fixed:
  "Word (foldl dispatch p gs) = Word p \<and> Lemma (foldl dispatch p gs) = Lemma p
   \<and> Tags (foldl dispatch p gs) = Tags p \<and> PartOfSpeech (foldl dispatch p gs) = PartOfSpeech p"
  by (induction gs arbitrary: p) (simp_all add: dispatch_fixed)

lemma foldl_dispatch_category:
  "d \<noteq> DOther \<Longrightarrow>
   categoryField d (foldl dispatch p gs) =
     (let hits = filter (\<lambda>g. g \<noteq> PartOfSpeech p \<and> destinationOf g = d) gs
      in if hits = [] then categoryField d p else last hits)"
proof (induction gs rule: rev_induct)
  case Nil
  then show ?case by simp
next
  case (snoc g gs)
  have pos: "PartOfSpeech (foldl dispatch p gs) = PartOfSpeech p"
    by (simp add: foldl_dispatch_fixed)
  show ?case
  proof (cases "g = PartOfSpeech p")
    case True
    then show ?thesis using snoc pos by (simp add: dispatch_skip Let_def)
  next
    case False
    then show ?thesis using snoc pos by (simp add: dispatch_category Let_def)
  qed
qed

lemma foldl_dispatch_other:
  "OtherTags (foldl dispatch p gs) =
     OtherTags p \<union> {g \<in> set gs. g \<noteq> PartOfSpeech p \<and> destinationOf g = DOther}"
proof (induction gs rule: rev_induct)
  case Nil
  then show ?case by simp
next
  case (snoc g gs)
  have pos: "PartOfSpeech (foldl dispatch p gs) = PartOfSpeech p"
    by (simp add: foldl_dispatch_fixed)
  show ?case
  proof (cases "g = PartOfSpeech p")
    case True
    then show ?thesis using snoc pos by (auto simp add: dispatch_skip)
  next
    case False
    then show ?thesis using snoc pos by (auto simp add: dispatch_other)
  qed
qed

lemma newParsed_fixed:
  "Word (newParsed w l t) = w" "Lemma (newParsed w l t) = l" "Tags (newParsed w l t) = t"
  by (simp_all add: newParsed_def Let_def foldl_dispatch_fixed)

text \<open>
  C10, as the code has it. The record keeps the word, the lemma and the raw tag string.
  \<open>PartOfSpeech\<close> is the first comma-separated token when that token is in the
  part-of-speech vocabulary, and the empty string otherwise. Every token that differs
  from \<open>PartOfSpeech\<close> goes to exactly one destination, the first matching category in
  the fixed order or else the set \<open>OtherTags\<close>: a category field holds the last token
  sent to it (the empty string if there is none), and \<open>OtherTags\<close> holds exactly the
  tokens that match no category.
\<close>

theorem newParsed_decomposition:
  assumes "tokens = strings_Split tagString"
    and "pos = (if hd tokens \<in> set posTags then hd tokens else [])"
    and "p = newParsed word lemma tagString"
  shows "Word p = word \<and> Lemma p = lemma \<and> Tags p = tagString \<and> PartOfSpeech p = pos \<and>
         (\<forall>d. d \<noteq> DOther \<longrightarrow>
            categoryField d p = lastOr (filter (\<lambda>g. g \<noteq> pos \<and> destinationOf g = d) tokens)) \<and>
         OtherTags p = set (filter (\<lambda>g. g \<noteq> pos \<and> destinationOf g = DOther) tokens)"
proof -
  define p0 :: Parsed where
    "p0 = \<lparr>Word = word, Lemma = lemma, Tags = tagString, PartOfSpeech = pos,
           Animacy = [], Aspect = [], Case = [], Gender = [], Mood = [], Number = [],
           Person = [], Tense = [], Transitivity = [], Voice = [], OtherTags = {}\<rparr>"
  have ne: "tokens \<noteq> []" using assms(1) strings_Split_nonempty by simp
  have p: "p = foldl dispatch p0 tokens"
    using ne assms by (simp add: newParsed_def Let_def p0_def inMap_def)
  have pos0: "PartOfSpeech p0 = pos" and oth0: "OtherTags p0 = {}"
    and cat0: "\<And>d. categoryField d p0 = []"
    subgoal by (simp add: p0_def)
    subgoal by (simp add: p0_def)
    subgoal for d by (cases d) (simp_all add: p0_def)
    done
  have fixed: "Word p = word \<and> Lemma p = lemma \<and> Tags p = tagString \<and> PartOfSpeech p = pos"
    unfolding p using foldl_dispatch_fixed[of p0 tokens] by (simp add: p0_def)
  have cats: "\<forall>d. d \<noteq> DOther \<longrightarrow>
            categoryField d p = lastOr (filter (\<lambda>g. g \<noteq> pos \<and> destinationOf g = d) tokens)"
    unfolding p using foldl_dispatch_category[of _ p0 tokens]
    by (simp add: pos0 cat0 lastOr_def Let_def)
  have oth: "OtherTags p = set (filter (\<lambda>g. g \<noteq> pos \<and> destinationOf g = DOther) tokens)"
    unfolding p using foldl_dispatch_other[of p0 tokens] by (simp add: pos0 oth0)
  show ?thesis using fixed cats oth by blast
qed

theorem newParsed_decomposition_witness:
  "PartOfSpeech (newParsed [120] [121]
       [1043, 1083, 1072, 1075, 1086, 1083, 44, 1054, 1073, 1097, 1080, 1081, 44, 122])
     = [1043, 1083, 1072, 1075, 1086, 1083] \<and>
   Gender (newParsed [120] [121]
       [1043, 1083, 1072, 1075, 1086, 1083, 44, 1054, 1073, 1097, 1080, 1081, 44, 122])
     = [1054, 1073, 1097, 1080, 1081] \<and>
   Case (newParsed [120] [121]
       [1043, 1083, 1072, 1075, 1086, 1083, 44, 1054, 1073, 1097, 1080, 1081, 44, 122]) = [] \<and>
   OtherTags (newParsed [120] [121]
       [1043, 1083, 1072, 1075, 1086, 1083, 44, 1054, 1073, 1097, 1080, 1081, 44, 122])
     = {[122]}"
proof -
  let ?t = "[1043, 1083, 1072, 1075, 1086, 1083, 44, 1054, 1073, 1097, 1080, 1081, 44, 122] :: gostring"
  let ?p = "newParsed [120] [121] ?t"
  have sp: "strings_Split ?t =
      [[1043, 1083, 1072, 1075, 1086, 1083], [1054, 1073, 1097, 1080, 1081], [122]]"
    by simp
  have d1: "destinationOf [1054, 1073, 1097, 1080, 1081] = DGender"
    by (simp add: destinationOf_def animacyTags_def aspectTags_def caseTags_def genderTags_def)
  have d2: "destinationOf [122] = DOther"
    by (simp add: destinationOf_def animacyTags_def aspectTags_def caseTags_def genderTags_def
        moodTags_def numberTags_def personTags_def tenseTags_def transTags_def voiceTags_def)
  have d3: "destinationOf [1043, 1083, 1072, 1075, 1086, 1083] = DOther"
    by (simp add: destinationOf_def animacyTags_def aspectTags_def caseTags_def genderTags_def
        moodTags_def numberTags_def personTags_def tenseTags_def transTags_def voiceTags_def)
  have pos: "(if hd (strings_Split ?t) \<in> set posTags then hd (strings_Split ?t) else [])
      = [1043, 1083, 1072, 1075, 1086, 1083]"
    by (simp add: posTags_def)
  note th = newParsed_decomposition[of _ ?t _ _ "[120]" "[121]", OF refl refl refl]
  note th4 = th[THEN conjunct2, THEN conjunct2, THEN conjunct2]
  have a: "PartOfSpeech ?p = [1043, 1083, 1072, 1075, 1086, 1083]"
    using th4[THEN conjunct1] by (simp only: pos)
  note cats = th4[THEN conjunct2, THEN conjunct1, rule_format]
  have "categoryField DGender ?p = lastOr (filter (\<lambda>g. g \<noteq> [1043, 1083, 1072, 1075, 1086, 1083]
            \<and> destinationOf g = DGender) (strings_Split ?t))"
    using cats[of DGender] by (simp only: pos destination.distinct not_False_eq_True simp_thms)
  then have b: "Gender ?p = [1054, 1073, 1097, 1080, 1081]"
    by (simp add: sp d1 d2 lastOr_def)
  have "categoryField DCase ?p = lastOr (filter (\<lambda>g. g \<noteq> [1043, 1083, 1072, 1075, 1086, 1083]
            \<and> destinationOf g = DCase) (strings_Split ?t))"
    using cats[of DCase] by (simp only: pos destination.distinct not_False_eq_True simp_thms)
  then have c: "Case ?p = []"
    by (simp add: sp d1 d2 lastOr_def)
  have "OtherTags ?p = set (filter (\<lambda>g. g \<noteq> [1043, 1083, 1072, 1075, 1086, 1083]
            \<and> destinationOf g = DOther) (strings_Split ?t))"
    using th4[THEN conjunct2, THEN conjunct2] by (simp only: pos)
  then have d: "OtherTags ?p = {[122]}"
    by (simp add: sp d1 d2)
  show ?thesis using a b c d by simp
qed

text \<open>
  The claim as stated fails on the empty tag string: its first token is the empty
  string, which is not in the part-of-speech vocabulary, and \<open>PartOfSpeech\<close> is the
  empty string too.
\<close>

theorem newParsed_pos_iff_counterexample:
  "\<not> (PartOfSpeech (newParsed [120] [121] []) = hd (strings_Split [])
        \<longleftrightarrow> hd (strings_Split []) \<in> set posTags)"
  by (simp add: newParsed_def inMap_def posTags_def dispatch_def)

subsection \<open>C4: case-insensitivity of the lookup\<close>

lemma dispatch_Word_update: "dispatch (p\<lparr>Word := w\<rparr>) g = (dispatch p g)\<lparr>Word := w\<rparr>"
  by (simp add: dispatch_def)

lemma foldl_dispatch_Word_update:
  "foldl dispatch (p\<lparr>Word := w\<rparr>) gs = (foldl dispatch p gs)\<lparr>Word := w\<rparr>"
  by (induction gs arbitrary: p) (simp_all add: dispatch_Word_update)

lemma newParsed_Word_update: "newParsed w l t = (newParsed w' l t)\<lparr>Word := w\<rparr>"
proof -
  have "strings_Split t \<noteq> []" by (rule strings_Split_nonempty)
  then show ?thesis
    by (simp add: newParsed_def Let_def foldl_dispatch_Word_update[symmetric])
qed

lemma obind_map_outcome:
  "map_outcome f (obind m k) = obind m (\<lambda>x. map_outcome f (k x))"
  by (cases m) simp_all

lemma omapM_newParsed_Word:
  "omapM (\<lambda>info. obind (index_at (LemmaPool a) (LemmaID info)) (\<lambda>lemma.
                    obind (index_at (tagsPool a) (TagsID info)) (\<lambda>tags.
                      Returns (newParsed w lemma tags)))) win
   = map_outcome (map (\<lambda>p. p\<lparr>Word := w\<rparr>))
       (omapM (\<lambda>info. obind (index_at (LemmaPool a) (LemmaID info)) (\<lambda>lemma.
                    obind (index_at (tagsPool a) (TagsID info)) (\<lambda>tags.
                      Returns (newParsed w' lemma tags)))) win)"
proof (induction win)
  case Nil
  then show ?case by simp
next
  case (Cons info win)
  show ?case
  proof (cases "index_at (LemmaPool a) (LemmaID info)")
    case (Returns l)
    show ?thesis
    proof (cases "index_at (tagsPool a) (TagsID info)")
      case r2: (Returns t)
      have np: "newParsed w l t = (newParsed w' l t)\<lparr>Word := w\<rparr>"
        by (rule newParsed_Word_update)
      show ?thesis
        by (cases "omapM (\<lambda>info. obind (index_at (LemmaPool a) (LemmaID info)) (\<lambda>lemma.
                    obind (index_at (tagsPool a) (TagsID info)) (\<lambda>tags.
                      Returns (newParsed w' lemma tags)))) win")
           (simp_all add: Returns r2 Cons.IH np)
    qed (simp_all add: Returns)
  qed simp_all
qed

lemma Parse_same_lower:
  assumes "strings_ToLower lower w = strings_ToLower lower w'"
  shows "Parse lower a w = map_outcome (map (\<lambda>p. p\<lparr>Word := w\<rparr>)) (Parse lower a w')"
proof -
  have f: "omapM (\<lambda>info. obind (index_at (LemmaPool a) (LemmaID info)) (\<lambda>lemma.
                    obind (index_at (tagsPool a) (TagsID info)) (\<lambda>tags.
                      Returns (newParsed w lemma tags))))
        = (\<lambda>win. map_outcome (map (\<lambda>p. p\<lparr>Word := w\<rparr>))
             (omapM (\<lambda>info. obind (index_at (LemmaPool a) (LemmaID info)) (\<lambda>lemma.
                    obind (index_at (tagsPool a) (TagsID info)) (\<lambda>tags.
                      Returns (newParsed w' lemma tags)))) win))"
    by (rule ext) (rule omapM_newParsed_Word)
  show ?thesis
    unfolding Parse_def Let_def assms f
    by (simp add: obind_map_outcome split_def if_distrib[of "map_outcome _"] cong: if_cong)
qed


lemma Parse_AC_words: "map_outcome (map Word) (Parse asciiLower lexA [65,67]) = Returns [[65,67],[65,67]]"
  by code_simp

lemma Parse_ac_words: "map_outcome (map Word) (Parse asciiLower lexA (strings_ToLower asciiLower [65,67])) = Returns [[97,99],[97,99]]"
  by code_simp

lemma mset_Word_cong:
  "map_outcome mset x = map_outcome mset y \<Longrightarrow>
   map_outcome (\<lambda>ps. set (map Word ps)) x = map_outcome (\<lambda>ps. set (map Word ps)) y"
  by (cases x; cases y) (auto dest: mset_eq_setD)


text \<open>
  C4, as the code has it. \<open>Parse\<close> walks the graph along the lower-cased word but stores
  the word as it was given in every record. So for a word \<open>w\<close> on whose characters
  lower-casing is idempotent and undoes upper-casing, \<open>Parse\<close> of the lower-cased and of
  the upper-cased word return the records of \<open>Parse w\<close>, in the same order, with only the
  \<open>Word\<close> field replaced by the word that was passed.
\<close>

theorem Parse_case_insensitive_up_to_Word:
  assumes "\<forall>c \<in> set w. lower (lower c) = lower c"
    and "\<forall>c \<in> set w. lower (upper c) = lower c"
  shows "Parse lower a (strings_ToLower lower w)
           = map_outcome (map (\<lambda>p. p\<lparr>Word := strings_ToLower lower w\<rparr>)) (Parse lower a w) \<and>
         Parse lower a (map upper w)
           = map_outcome (map (\<lambda>p. p\<lparr>Word := map upper w\<rparr>)) (Parse lower a w)"
proof
  have "strings_ToLower lower (strings_ToLower lower w) = strings_ToLower lower w"
    using assms(1) by (simp add: strings_ToLower_def)
  then show "Parse lower a (strings_ToLower lower w)
           = map_outcome (map (\<lambda>p. p\<lparr>Word := strings_ToLower lower w\<rparr>)) (Parse lower a w)"
    by (rule Parse_same_lower)
  have "strings_ToLower lower (map upper w) = strings_ToLower lower w"
    using assms(2) by (simp add: strings_ToLower_def)
  then show "Parse lower a (map upper w)
           = map_outcome (map (\<lambda>p. p\<lparr>Word := map upper w\<rparr>)) (Parse lower a w)"
    by (rule Parse_same_lower)
qed

theorem Parse_case_insensitive_up_to_Word_witness:
  "asciiLower (asciiLower 65) = asciiLower 65 \<and> asciiLower (asciiLower 99) = asciiLower 99 \<and>
   asciiLower (asciiUpper 65) = asciiLower 65 \<and> asciiLower (asciiUpper 99) = asciiLower 99 \<and>
   Parse asciiLower lexA [97, 99]
     = map_outcome (map (\<lambda>p. p\<lparr>Word := [97, 99]\<rparr>)) (Parse asciiLower lexA [65, 99]) \<and>
   Parse asciiLower lexA [65, 67]
     = map_outcome (map (\<lambda>p. p\<lparr>Word := [65, 67]\<rparr>)) (Parse asciiLower lexA [65, 99]) \<and>
   map_outcome (map Lemma) (Parse asciiLower lexA [65, 99]) = Returns [[97, 98], [97, 99]]"
proof -
  have h1: "\<forall>c \<in> set [65, 99]. asciiLower (asciiLower c) = asciiLower c"
    and h2: "\<forall>c \<in> set [65, 99]. asciiLower (asciiUpper c) = asciiLower c"
    by (simp_all add: asciiLower_def asciiUpper_def)
  have l: "strings_ToLower asciiLower [65, 99] = [97, 99]"
    and u: "map asciiUpper [65, 99] = [65, 67]"
    by (simp_all add: strings_ToLower_def asciiLower_def asciiUpper_def)
  have e: "map_outcome (map Lemma) (Parse asciiLower lexA [65, 99]) = Returns [[97, 98], [97, 99]]"
    by code_simp
  show ?thesis
    using Parse_case_insensitive_up_to_Word[of "[65, 99]" asciiLower asciiUpper lexA, OF h1 h2]
      e
    by (simp only: l u) (simp add: asciiLower_def asciiUpper_def)
qed

text \<open>
  The claim as stated fails wherever the word is in the dictionary and has a capital
  letter: the records of \<open>Parse\<close> on AC carry the word AC, those of \<open>Parse\<close> on its
  lower-cased form carry ac.
\<close>

theorem Parse_case_multiset_counterexample: "map_outcome mset (Parse asciiLower lexA [65,67]) \<noteq>
   map_outcome mset (Parse asciiLower lexA (strings_ToLower asciiLower [65,67]))"
proof
  assume "map_outcome mset (Parse asciiLower lexA [65,67]) =
   map_outcome mset (Parse asciiLower lexA (strings_ToLower asciiLower [65,67]))"
  then have "map_outcome (\<lambda>ps. set (map Word ps)) (Parse asciiLower lexA [65,67]) =
     map_outcome (\<lambda>ps. set (map Word ps)) (Parse asciiLower lexA (strings_ToLower asciiLower [65,67]))"
    by (rule mset_Word_cong)
  moreover have "map_outcome (\<lambda>ps. set (map Word ps)) (Parse asciiLower lexA [65,67])
     = map_outcome set (map_outcome (map Word) (Parse asciiLower lexA [65,67]))"
    by (simp add: outcome.map_comp comp_def)
  moreover have "map_outcome (\<lambda>ps. set (map Word ps)) (Parse asciiLower lexA (strings_ToLower asciiLower [65,67]))
     = map_outcome set (map_outcome (map Word) (Parse asciiLower lexA (strings_ToLower asciiLower [65,67])))"
    by (simp add: outcome.map_comp comp_def)
  ultimately show False by (simp only: Parse_AC_words Parse_ac_words) simp
qed

subsection \<open>Walking a well-formed graph\<close>

lemma slice_payload_window:
  "payload_window_ok node (length ps) \<Longrightarrow>
   slice ps (PayloadIdx node) (PayloadIdx node + ucast (PayloadLen node))
     = Returns (payload_window node ps)"
  by (simp add: slice_def unat_add_ucast payload_window_def payload_window_ok_def)

lemma findChild_spec:
  assumes n: "unat n < length ns"
    and ok: "edge_window_ok (ns ! unat n) es"
    and srt: "sorted_wrt (<) (map Char (edge_window (ns ! unat n) es))"
  shows "findChildGeneral n c ns es =
         (case find (\<lambda>e. Char e = c) (edge_window (ns ! unat n) es) of
            Some e \<Rightarrow> Returns (NodeID e, True) | None \<Rightarrow> Returns (0, False))"
proof (cases "EdgesLen (ns ! unat n) = 0")
  case True
  then have "edge_window (ns ! unat n) es = []" by (simp add: edge_window_def)
  then show ?thesis using True n by (simp add: findChildGeneral_def index_at_def)
next
  case False
  then show ?thesis by (rule findChild_found[OF n _ ok srt])
qed

lemma graph_ok_node:
  assumes "graph_ok ns es np" and "unat n < length ns"
  shows "edge_window_ok (ns ! unat n) es" and "payload_window_ok (ns ! unat n) np"
    and "sorted_wrt (<) (map Char (edge_window (ns ! unat n) es))"
    and "\<And>e. e \<in> set (edge_window (ns ! unat n) es) \<Longrightarrow> unat (NodeID e) < length ns"
  using assms by (auto simp: graph_ok_def)

lemma walk_spec:
  assumes g: "graph_ok ns es np"
  shows "unat cur < length ns \<Longrightarrow>
         (case specWalk ns es cur cs of
            Some n \<Rightarrow> walk ns es cur cs = Returns (n, True) \<and> unat n < length ns
          | None \<Rightarrow> (\<exists>m. walk ns es cur cs = Returns (m, False)))"
proof (induction cs arbitrary: cur)
  case Nil
  then show ?case by simp
next
  case (Cons c cs)
  note fc = findChild_spec[OF Cons.prems graph_ok_node(1)[OF g Cons.prems]
      graph_ok_node(3)[OF g Cons.prems], of c]
  show ?case
  proof (cases "find (\<lambda>e. Char e = c) (edge_window (ns ! unat cur) es)")
    case None
    then show ?thesis using fc by simp
  next
    case (Some e)
    then have "e \<in> set (edge_window (ns ! unat cur) es)"
      by (auto simp: find_Some_iff)
    then have "unat (NodeID e) < length ns"
      by (rule graph_ok_node(4)[OF g Cons.prems])
    from Cons.IH[OF this] show ?thesis using fc Some by (simp split: option.splits)
  qed
qed

lemma string_of_runes_valid: "valid_runes rs \<Longrightarrow> string_of_runes rs = rs"
  by (induction rs) (auto simp: valid_runes_def string_of_runes_def)

lemma valid_runes_drop: "valid_runes rs \<Longrightarrow> valid_runes (drop n rs)"
  by (auto simp: valid_runes_def dest: in_set_dropD)

lemma collectCandidates_spec:
  assumes g: "graph_ok (predictNodes a) (predictEdges a) (length (predictPayloads a))"
    and v: "valid_runes w"
  shows "collectCandidates k a w acc
           = Returns (acc @ concat (map (candidatesAt a w) (rev [1..<Suc k])))"
proof (induction k arbitrary: acc)
  case 0
  then show ?case by simp
next
  case (Suc k)
  have root: "unat (0::u32) < length (predictNodes a)" using g by (simp add: graph_ok_def)
  let ?suf = "drop (length w - Suc k) w"
  have sv: "string_of_runes ?suf = ?suf"
    by (rule string_of_runes_valid[OF valid_runes_drop[OF v]])
  note ws = walk_spec[OF g root, of ?suf]
  have rv: "rev [1..<Suc (Suc k)] = Suc k # rev [1..<Suc k]" by simp
  show ?case
  proof (cases "Suc k > length w")
    case True
    then show ?thesis
      unfolding rv by (simp add: Suc.IH candidatesAt_def Let_def del: upt_Suc)
  next
    case False
    show ?thesis
    proof (cases "specWalk (predictNodes a) (predictEdges a) 0 ?suf")
      case None
      then obtain m where "walk (predictNodes a) (predictEdges a) 0 ?suf = Returns (m, False)"
        using ws by auto
      then show ?thesis
        unfolding rv using False None
        by (simp add: Suc.IH candidatesAt_def Let_def sv del: upt_Suc)
    next
      case (Some n)
      then have w1: "walk (predictNodes a) (predictEdges a) 0 ?suf = Returns (n, True)"
        and nb: "unat n < length (predictNodes a)"
        using ws by auto
      have sl: "slice (predictPayloads a) (PayloadIdx (predictNodes a ! unat n))
                  (PayloadIdx (predictNodes a ! unat n) + ucast (PayloadLen (predictNodes a ! unat n)))
                = Returns (payload_window (predictNodes a ! unat n) (predictPayloads a))"
        by (rule slice_payload_window[OF graph_ok_node(2)[OF g nb]])
      show ?thesis
        unfolding rv using False Some w1 nb
        by (simp add: Suc.IH candidatesAt_def Let_def sv index_at_def sl del: upt_Suc)
    qed
  qed
qed

subsection \<open>Sorting with \<open>sort.Slice\<close>\<close>

lemma bubble_mset: "mset (bubble lt x ys) = add_mset x (mset ys)"
  by (induction ys) simp_all

lemma foldl_bubble_mset:
  "mset (foldl (\<lambda>acc x. bubble lt x acc) acc xs) = mset acc + mset xs"
  by (induction xs arbitrary: acc) (simp_all add: bubble_mset)

lemma insertionSort_mset: "mset (insertionSortLessFunc lt xs) = mset xs"
  by (simp add: insertionSortLessFunc_def foldl_bubble_mset)

lemma bubble_set: "set (bubble lt x ys) = insert x (set ys)"
  using bubble_mset[of lt x ys] by (metis set_mset_add_mset_insert set_mset_mset)

lemma bubble_sorted:
  assumes asym: "\<And>x y. lt x y \<Longrightarrow> \<not> lt y x"
    and ntrans: "\<And>x y z. \<not> lt x y \<Longrightarrow> \<not> lt y z \<Longrightarrow> \<not> lt x z"
  shows "sorted_wrt (\<lambda>y z. \<not> lt y z) acc \<Longrightarrow> sorted_wrt (\<lambda>y z. \<not> lt y z) (bubble lt x acc)"
proof (induction acc)
  case Nil
  then show ?case by simp
next
  case (Cons y ys)
  show ?case
  proof (cases "lt x y")
    case True
    have "\<forall>z \<in> set (bubble lt x ys). \<not> lt y z"
      using Cons.prems asym[OF True] by (auto simp: bubble_set)
    moreover have "sorted_wrt (\<lambda>y z. \<not> lt y z) (bubble lt x ys)"
      using Cons by simp
    ultimately show ?thesis using True by simp
  next
    case False
    have "\<forall>z \<in> set (y # ys). \<not> lt x z"
      using Cons.prems False ntrans by auto
    then show ?thesis using False Cons.prems by simp
  qed
qed

lemma foldl_bubble_sorted:
  assumes asym: "\<And>x y. lt x y \<Longrightarrow> \<not> lt y x"
    and ntrans: "\<And>x y z. \<not> lt x y \<Longrightarrow> \<not> lt y z \<Longrightarrow> \<not> lt x z"
  shows "sorted_wrt (\<lambda>y z. \<not> lt y z) acc \<Longrightarrow>
         sorted_wrt (\<lambda>y z. \<not> lt y z) (foldl (\<lambda>acc x. bubble lt x acc) acc xs)"
  by (induction xs arbitrary: acc) (simp_all add: bubble_sorted[OF asym ntrans])

lemma insertionSort_sorted:
  assumes "strictWeakOrder lt"
  shows "sorted_wrt (\<lambda>y z. \<not> lt z y) (insertionSortLessFunc lt xs)"
proof -
  have asym: "\<And>x y. lt x y \<Longrightarrow> \<not> lt y x"
    and ntrans: "\<And>x y z. \<not> lt x y \<Longrightarrow> \<not> lt y z \<Longrightarrow> \<not> lt x z"
    using assms unfolding strictWeakOrder_def by blast+
  show ?thesis
    using foldl_bubble_sorted[where lt = lt and acc = "[]" and xs = xs, OF asym ntrans]
    by (simp add: insertionSortLessFunc_def sorted_wrt_rev)
qed

text \<open>The insertion sort meets the contract of the sort, so the contract can be met.\<close>

lemma insertionSort_contract: "sortContract insertionSortLessFunc"
  by (simp add: sortContract_def insertionSort_mset insertionSort_sorted)

lemma sort_Slice_mset:
  assumes "sortContract pdq" and "strictWeakOrder lt"
  shows "mset (sort_Slice pdq lt xs) = mset xs"
  using assms by (simp add: sort_Slice_def insertionSort_mset sortContract_def)

lemma sort_Slice_sorted:
  assumes "sortContract pdq" and "strictWeakOrder lt"
  shows "sorted_wrt (\<lambda>y z. \<not> lt z y) (sort_Slice pdq lt xs)"
  using assms by (simp add: sort_Slice_def insertionSort_sorted sortContract_def)

lemma sort_Slice_set:
  assumes "sortContract pdq" and "strictWeakOrder lt"
  shows "set (sort_Slice pdq lt xs) = set xs"
  using sort_Slice_mset[OF assms, of xs] by (metis set_mset_mset)

lemma sort_Slice_length:
  assumes "sortContract pdq" and "strictWeakOrder lt"
  shows "length (sort_Slice pdq lt xs) = length xs"
  using sort_Slice_mset[OF assms, of xs] by (metis size_mset)

lemma sort_Slice_hd_maximal:
  assumes c: "sortContract pdq" and swo: "strictWeakOrder lt" and ne: "xs \<noteq> []"
  shows "hd (sort_Slice pdq lt xs) \<in> set xs \<and>
         (\<forall>d \<in> set xs. \<not> lt d (hd (sort_Slice pdq lt xs)))"
proof -
  obtain h t where ht: "sort_Slice pdq lt xs = h # t"
    using ne sort_Slice_length[OF c swo, of xs] by (cases "sort_Slice pdq lt xs") auto
  have s: "set xs = insert h (set t)" using sort_Slice_set[OF c swo, of xs] ht by simp
  have "\<forall>z \<in> set t. \<not> lt z h"
    using sort_Slice_sorted[OF c swo, of xs] ht by simp
  moreover have "\<not> lt h h" using swo unfolding strictWeakOrder_def by blast
  ultimately show ?thesis using s ht by simp
qed

lemma candLess_swo: "strictWeakOrder candLess"
  unfolding strictWeakOrder_def
  by (auto simp: candLess_def split: if_splits)

text \<open>
  What the comparison of the candidates says of two of them: \<open>d\<close> does not come before
  \<open>c\<close> exactly when its suffix is shorter, or as long with a frequency that is not higher.
\<close>

lemma not_candLess_iff:
  "\<not> candLess d c \<longleftrightarrow>
     SuffixLen d < SuffixLen c \<or> (SuffixLen d = SuffixLen c \<and> Frequency d \<le> Frequency c)"
  by (auto simp: candLess_def)

lemma wordLess_swo: "strictWeakOrder (\<lambda>p q. Word p < Word q)"
  unfolding strictWeakOrder_def by auto

subsection \<open>C5: suffix scoring\<close>

lemma candidatesAt_empty_iff:
  assumes g: "graph_ok (predictNodes a) (predictEdges a) (length (predictPayloads a))"
    and f: "final_nonempty (predictNodes a)"
  shows "candidatesAt a w k = [] \<longleftrightarrow> (k \<le> length w \<longrightarrow> \<not> endsAtFinal a (drop (length w - k) w))"
proof (cases "specWalk (predictNodes a) (predictEdges a) 0 (drop (length w - k) w)")
  case None
  then show ?thesis by (simp add: candidatesAt_def endsAtFinal_def)
next
  case (Some n)
  have root: "unat (0::u32) < length (predictNodes a)" using g by (simp add: graph_ok_def)
  have nb: "unat n < length (predictNodes a)"
    using walk_spec[OF g root, of "drop (length w - k) w"] Some by simp
  let ?node = "predictNodes a ! unat n"
  have "payload_window_ok ?node (length (predictPayloads a))"
    by (rule graph_ok_node(2)[OF g nb])
  then have len: "length (payload_window ?node (predictPayloads a)) = unat (PayloadLen ?node)"
    unfolding payload_window_def payload_window_ok_def by (simp add: min_def) linarith
  have "IsFinal ?node \<Longrightarrow> PayloadLen ?node \<noteq> 0"
    using f nb by (simp add: final_nonempty_def)
  then have "IsFinal ?node \<Longrightarrow> payload_window ?node (predictPayloads a) \<noteq> []"
    using len by (metis length_0_conv unat_eq_0)
  then show ?thesis using Some by (auto simp add: candidatesAt_def endsAtFinal_def)
qed

text \<open>
  C5. On a well-formed prediction graph, \<open>findBestPrediction\<close> returns; its candidates
  are those of the suffixes of length 5 down to 1 (lengths above the word's skipped),
  each rule of a final end node paired with the suffix length; the result is one of
  the candidates, and every candidate has a shorter suffix than it, or a suffix as long
  and a frequency that is not higher; and the result is \<open>None\<close> exactly when no probed
  suffix ends at a final node.
\<close>

theorem findBestPrediction_spec:
  assumes "sortContract pdq"
    and "graph_ok (predictNodes a) (predictEdges a) (length (predictPayloads a))"
    and "final_nonempty (predictNodes a)"
    and "valid_runes w"
  shows "\<exists>r. findBestPrediction pdq a w = Returns r \<and>
           (case r of
              None \<Rightarrow> specCandidates a w = []
            | Some c \<Rightarrow> c \<in> set (specCandidates a w) \<and>
                        (\<forall>d \<in> set (specCandidates a w).
                           SuffixLen d < SuffixLen c \<or>
                           (SuffixLen d = SuffixLen c \<and> Frequency d \<le> Frequency c))) \<and>
           (r = None \<longleftrightarrow>
              (\<forall>k \<in> set [5, 4, 3, 2, 1].
                 k \<le> length w \<longrightarrow> \<not> endsAtFinal a (drop (length w - k) w)))"
proof -
  have r5: "rev [1..<Suc 5] = [5, 4, 3, 2, 1]" by (simp add: upt_rec)
  have cc: "collectCandidates 5 a w [] = Returns (specCandidates a w)"
    using collectCandidates_spec[OF assms(2) assms(4), of 5 "[]"]
    by (simp only: r5 specCandidates_def append_Nil)
  have emp: "specCandidates a w = [] \<longleftrightarrow>
      (\<forall>k \<in> set [5, 4, 3, 2, 1]. k \<le> length w \<longrightarrow> \<not> endsAtFinal a (drop (length w - k) w))"
    unfolding specCandidates_def
    using candidatesAt_empty_iff[OF assms(2) assms(3), of w] by simp
  show ?thesis
  proof (cases "specCandidates a w = []")
    case True
    then have "findBestPrediction pdq a w = Returns None"
      by (simp add: findBestPrediction_def cc)
    then show ?thesis using True emp by simp
  next
    case False
    let ?c = "hd (sort_Slice pdq candLess (specCandidates a w))"
    have fb: "findBestPrediction pdq a w = Returns (Some ?c)"
      using False by (simp add: findBestPrediction_def cc)
    have "?c \<in> set (specCandidates a w) \<and> (\<forall>d \<in> set (specCandidates a w). \<not> candLess d ?c)"
      by (rule sort_Slice_hd_maximal[OF assms(1) candLess_swo False])
    then have "?c \<in> set (specCandidates a w) \<and>
        (\<forall>d \<in> set (specCandidates a w).
           SuffixLen d < SuffixLen ?c \<or>
           (SuffixLen d = SuffixLen ?c \<and> Frequency d \<le> Frequency ?c))"
      unfolding not_candLess_iff by blast
    then show ?thesis using fb False emp by simp
  qed
qed

lemma lexA_predict_graph_ok:
  "graph_ok (predictNodes lexA) (predictEdges lexA) (length (predictPayloads lexA))"
  by (simp add: graph_ok_def lexA_def lexPredictNodes_def lexPredictEdges_def lexPredictPayloads_def
      edge_window_ok_def payload_window_ok_def edge_window_def)

lemma lexA_predict_final_nonempty: "final_nonempty (predictNodes lexA)"
  by (simp add: final_nonempty_def lexA_def lexPredictNodes_def)

text \<open>
  On the small lexicon: for yb only the suffix b has rules, of frequency 3 and 5 in
  this order, and the rule of frequency 5 wins; for xb the rule of the longer suffix xb
  wins over both.
\<close>

theorem findBestPrediction_spec_witness:
  "sortContract (insertionSortLessFunc :: PredictionCandidate sorter) \<and>
   graph_ok (predictNodes lexA) (predictEdges lexA) (length (predictPayloads lexA)) \<and>
   final_nonempty (predictNodes lexA) \<and> valid_runes [121, 98] \<and>
   specCandidates lexA [121, 98]
     = [\<lparr>Frequency = 3, PParadigmID = 1, FormIdx = 0, PTagsID = 0, SuffixLen = 1\<rparr>,
        \<lparr>Frequency = 5, PParadigmID = 1, FormIdx = 0, PTagsID = 1, SuffixLen = 1\<rparr>] \<and>
   findBestPrediction insertionSortLessFunc lexA [121, 98]
     = Returns (Some \<lparr>Frequency = 5, PParadigmID = 1, FormIdx = 0, PTagsID = 1, SuffixLen = 1\<rparr>) \<and>
   findBestPrediction insertionSortLessFunc lexA [120, 98]
     = Returns (Some \<lparr>Frequency = 1, PParadigmID = 1, FormIdx = 0, PTagsID = 1, SuffixLen = 2\<rparr>) \<and>
   endsAtFinal lexA [98]"
proof -
  have v: "valid_runes [121, 98]" by (simp add: valid_runes_def)
  have sc: "specCandidates lexA [121, 98]
     = [\<lparr>Frequency = 3, PParadigmID = 1, FormIdx = 0, PTagsID = 0, SuffixLen = 1\<rparr>,
        \<lparr>Frequency = 5, PParadigmID = 1, FormIdx = 0, PTagsID = 1, SuffixLen = 1\<rparr>]"
    by code_simp
  have e2: "findBestPrediction insertionSortLessFunc lexA [120, 98]
     = Returns (Some \<lparr>Frequency = 1, PParadigmID = 1, FormIdx = 0, PTagsID = 1, SuffixLen = 2\<rparr>)"
    by code_simp
  have f: "endsAtFinal lexA [98]" by code_simp
  from findBestPrediction_spec[OF insertionSort_contract lexA_predict_graph_ok
      lexA_predict_final_nonempty v]
  obtain r where r: "findBestPrediction insertionSortLessFunc lexA [121, 98] = Returns r"
    and c: "case r of None \<Rightarrow> specCandidates lexA [121, 98] = []
            | Some c \<Rightarrow> c \<in> set (specCandidates lexA [121, 98]) \<and>
                (\<forall>d \<in> set (specCandidates lexA [121, 98]).
                   SuffixLen d < SuffixLen c \<or>
                   (SuffixLen d = SuffixLen c \<and> Frequency d \<le> Frequency c))"
    by blast
  have "r = Some \<lparr>Frequency = 5, PParadigmID = 1, FormIdx = 0, PTagsID = 1, SuffixLen = 1\<rparr>"
  proof (cases r)
    case None
    then show ?thesis using c sc by simp
  next
    case (Some x)
    then have "x \<in> set (specCandidates lexA [121, 98])"
      and "\<forall>d \<in> set (specCandidates lexA [121, 98]).
                   SuffixLen d < SuffixLen x \<or>
                   (SuffixLen d = SuffixLen x \<and> Frequency d \<le> Frequency x)"
      using c by simp_all
    then show ?thesis unfolding sc using Some by auto
  qed
  then have e1: "findBestPrediction insertionSortLessFunc lexA [121, 98]
     = Returns (Some \<lparr>Frequency = 5, PParadigmID = 1, FormIdx = 0, PTagsID = 1, SuffixLen = 1\<rparr>)"
    using r by simp
  show ?thesis
    using insertionSort_contract lexA_predict_graph_ok lexA_predict_final_nonempty v sc e1 e2 f
    by simp
qed

subsection \<open>The operations return on a well-formed lexicon\<close>

lemma ofoldl_returns:
  assumes "\<And>s x. x \<in> set xs \<Longrightarrow> \<exists>s'. f s x = Returns s'"
  shows "\<exists>r. ofoldl f s xs = Returns r"
  using assms
proof (induction xs arbitrary: s)
  case Nil
  then show ?case by simp
next
  case (Cons x xs)
  obtain s' where s': "f s x = Returns s'" using Cons.prems[of x s] by auto
  have "\<exists>r. ofoldl f s' xs = Returns r"
    by (rule Cons.IH) (use Cons.prems in auto)
  then show ?case using s' by simp
qed

lemma findWord_returns:
  assumes g: "graph_ok (nodes a) (edges a) (length (payloads a))"
    and r: "ranked rank (nodes a) (edges a)"
  shows "unat n < length (nodes a) \<Longrightarrow> rank (unat n) < fuel \<Longrightarrow>
         \<exists>res'. findWord fuel a pre tid n suf res = Returns res'"
proof (induction fuel arbitrary: n suf res)
  case 0
  then show ?case by simp
next
  case (Suc fuel)
  let ?node = "nodes a ! unat n"
  have sp: "slice (payloads a) (PayloadIdx ?node) (PayloadIdx ?node + ucast (PayloadLen ?node))
              = Returns (payload_window ?node (payloads a))"
    by (rule slice_payload_window[OF graph_ok_node(2)[OF g Suc.prems(1)]])
  have se: "slice (edges a) (EdgesIdx ?node) (EdgesIdx ?node + ucast (EdgesLen ?node))
              = Returns (edge_window ?node (edges a))"
    by (rule slice_window[OF graph_ok_node(1)[OF g Suc.prems(1)]])
  have step: "\<And>s e. e \<in> set (edge_window ?node (edges a)) \<Longrightarrow>
      \<exists>s'. findWord fuel a pre tid (NodeID e) (suf @ [Char e]) s = Returns s'"
  proof -
    fix s e assume e: "e \<in> set (edge_window ?node (edges a))"
    have nb: "unat (NodeID e) < length (nodes a)"
      by (rule graph_ok_node(4)[OF g Suc.prems(1) e])
    have "rank (unat (NodeID e)) < rank (unat n)"
      using r Suc.prems(1) e by (simp add: ranked_def)
    then have "rank (unat (NodeID e)) < fuel" using Suc.prems(2) by simp
    from Suc.IH[OF nb this] show "\<exists>s'. findWord fuel a pre tid (NodeID e) (suf @ [Char e]) s = Returns s'" .
  qed
  have "\<And>s. \<exists>r. ofoldl (\<lambda>res edge. findWord fuel a pre tid (NodeID edge) (suf @ [Char edge]) res)
            s (edge_window ?node (edges a)) = Returns r"
    by (rule ofoldl_returns) (rule step)
  then show ?case
    using Suc.prems(1) by (simp add: index_at_def sp se)
qed

lemma collectCandidates_props:
  assumes g: "graph_ok (predictNodes a) (predictEdges a) (length (predictPayloads a))"
  shows "\<exists>cs. collectCandidates k a w acc = Returns (acc @ cs) \<and>
           (\<forall>c \<in> set cs. 1 \<le> SuffixLen c \<and> SuffixLen c \<le> int (length w) \<and>
                          PTagsID c \<in> PTagsID ` set (predictPayloads a))"
proof (induction k arbitrary: acc)
  case 0
  then show ?case by simp
next
  case (Suc k)
  have root: "unat (0::u32) < length (predictNodes a)" using g by (simp add: graph_ok_def)
  let ?suf = "string_of_runes (drop (length w - Suc k) w)"
  note ws = walk_spec[OF g root, of ?suf]
  show ?case
  proof (cases "Suc k > length w")
    case True
    then show ?thesis using Suc.IH[of acc] by (simp add: Let_def)
  next
    case False
    show ?thesis
    proof (cases "specWalk (predictNodes a) (predictEdges a) 0 ?suf")
      case None
      then obtain m where "walk (predictNodes a) (predictEdges a) 0 ?suf = Returns (m, False)"
        using ws by auto
      then show ?thesis using False Suc.IH[of acc] by (simp add: Let_def)
    next
      case (Some n)
      then have w1: "walk (predictNodes a) (predictEdges a) 0 ?suf = Returns (n, True)"
        and nb: "unat n < length (predictNodes a)"
        using ws by auto
      let ?node = "predictNodes a ! unat n"
      let ?win = "payload_window ?node (predictPayloads a)"
      have sl: "slice (predictPayloads a) (PayloadIdx ?node)
                  (PayloadIdx ?node + ucast (PayloadLen ?node)) = Returns ?win"
        by (rule slice_payload_window[OF graph_ok_node(2)[OF g nb]])
      show ?thesis
      proof (cases "IsFinal ?node")
        case nf: False
        then show ?thesis using False w1 nb Suc.IH[of acc] by (simp add: Let_def index_at_def)
      next
        case fin: True
        let ?new = "map (\<lambda>p. mkCandidate p (int (Suc k))) ?win"
        obtain cs where cs: "collectCandidates k a w (acc @ ?new) = Returns ((acc @ ?new) @ cs)"
          and pr: "\<forall>c \<in> set cs. 1 \<le> SuffixLen c \<and> SuffixLen c \<le> int (length w) \<and>
                          PTagsID c \<in> PTagsID ` set (predictPayloads a)"
          using Suc.IH[of "acc @ ?new"] by blast
        have sub: "set ?win \<subseteq> set (predictPayloads a)"
          unfolding payload_window_def by (meson set_take_subset set_drop_subset subset_trans)
        have pn: "\<forall>c \<in> set ?new. 1 \<le> SuffixLen c \<and> SuffixLen c \<le> int (length w) \<and>
                          PTagsID c \<in> PTagsID ` set (predictPayloads a)"
          using False sub by (auto simp: mkCandidate_def)
        have "collectCandidates (Suc k) a w acc = Returns (acc @ (?new @ cs))"
          using False w1 nb fin cs by (simp add: Let_def index_at_def sl)
        moreover have "\<forall>c \<in> set (?new @ cs). 1 \<le> SuffixLen c \<and> SuffixLen c \<le> int (length w) \<and>
                          PTagsID c \<in> PTagsID ` set (predictPayloads a)"
          using pn pr by auto
        ultimately show ?thesis by blast
      qed
    qed
  qed
qed

lemma findBestPrediction_props:
  assumes c: "sortContract pdq"
    and g: "graph_ok (predictNodes a) (predictEdges a) (length (predictPayloads a))"
    and b: "findBestPrediction pdq a w = Returns (Some best)"
  shows "1 \<le> SuffixLen best" and "SuffixLen best \<le> int (length w)"
    and "PTagsID best \<in> PTagsID ` set (predictPayloads a)"
proof -
  obtain cs where cs: "collectCandidates 5 a w [] = Returns cs"
    and pr: "\<forall>c \<in> set cs. 1 \<le> SuffixLen c \<and> SuffixLen c \<le> int (length w) \<and>
                          PTagsID c \<in> PTagsID ` set (predictPayloads a)"
    using collectCandidates_props[OF g, of 5 w "[]"] by auto
  have ne: "cs \<noteq> []" and best: "best = hd (sort_Slice pdq candLess cs)"
    using b cs by (auto simp: findBestPrediction_def split: if_splits)
  have "best \<in> set cs"
    using sort_Slice_hd_maximal[OF c candLess_swo ne] best by simp
  then show "1 \<le> SuffixLen best" and "SuffixLen best \<le> int (length w)"
    and "PTagsID best \<in> PTagsID ` set (predictPayloads a)"
    using pr by auto
qed

lemma findBestPrediction_returns:
  assumes g: "graph_ok (predictNodes a) (predictEdges a) (length (predictPayloads a))"
  shows "\<exists>r. findBestPrediction pdq a w = Returns r"
  using collectCandidates_props[OF g, of 5 w "[]"]
  by (auto simp: findBestPrediction_def)

lemma dfsGenerate_returns:
  assumes g: "graph_ok (nodes a) (edges a) (length (payloads a))"
    and r: "ranked rank (nodes a) (edges a)"
    and f: "\<forall>i < length (nodes a). rank i < fuel"
    and n: "unat n < length (nodes a)"
  shows "\<exists>res'. dfsGenerate fuel a n pre tid res = Returns res'"
  unfolding dfsGenerate_def using findWord_returns[OF g r n] f n by simp

lemma stems_returns:
  assumes ok: "lexicon_ok a"
    and r: "ranked rank (nodes a) (edges a)"
    and f: "\<forall>i < length (nodes a). rank i < fuel"
    and p: "paradigms a pID = Some infos"
  shows "\<exists>m. ofoldl (\<lambda>resultsMap pInfo.
                    dfsGenerate fuel a (StemNodeID pInfo) (Stem pInfo) tid resultsMap)
                  s infos = Returns m"
proof (rule ofoldl_returns)
  fix s x assume "x \<in> set infos"
  then have n: "unat (StemNodeID x) < length (nodes a)"
    using ok p by (auto simp: lexicon_ok_def)
  have g: "graph_ok (nodes a) (edges a) (length (payloads a))"
    using ok by (simp add: lexicon_ok_def)
  show "\<exists>s'. dfsGenerate fuel a (StemNodeID x) (Stem x) tid s = Returns s'"
    by (rule dfsGenerate_returns[OF g r f n])
qed

lemma getFormsByParadigmID_returns:
  assumes ok: "lexicon_ok a"
    and r: "ranked rank (nodes a) (edges a)"
    and f: "\<forall>i < length (nodes a). rank i < fuel"
  shows "\<exists>fs. getFormsByParadigmID fuel a pID = Returns fs"
proof (cases "paradigms a pID")
  case None
  then show ?thesis by (simp add: getFormsByParadigmID_def)
next
  case (Some infos)
  obtain m where "ofoldl (\<lambda>resultsMap pInfo.
                    dfsGenerate fuel a (StemNodeID pInfo) (Stem pInfo) pID resultsMap)
                  [] infos = Returns m"
    using stems_returns[OF ok r f Some] by blast
  then show ?thesis using Some by (simp add: getFormsByParadigmID_def)
qed

lemma proportionalLemma_returns:
  assumes ok: "lexicon_ok a"
    and s1: "0 \<le> SuffixLen best" and s2: "SuffixLen best \<le> int (length lw)"
  shows "\<exists>l. proportionalLemma a best lw forms = Returns l"
proof (cases "paradigmToLemmaID a (PParadigmID best)")
  case None
  then show ?thesis by (simp add: proportionalLemma_def)
next
  case (Some lid)
  then have "unat lid < length (LemmaPool a)" using ok by (auto simp: lexicon_ok_def)
  then have ix: "index_at (LemmaPool a) lid = Returns (LemmaPool a ! unat lid)"
    by (simp add: index_at_def)
  have rf: "runes_from lw (int (length lw) - SuffixLen best)
            = Returns (drop (nat (int (length lw) - SuffixLen best)) lw)"
    using s1 s2 by (simp add: runes_from_def)
  show ?thesis
    by (simp add: proportionalLemma_def Some Let_def ix rf)
qed

subsection \<open>C9: the tag string of a predicted parse\<close>

lemma lexA_ok: "lexicon_ok lexA"
  unfolding lexicon_ok_def
proof (intro conjI)
  show "graph_ok (nodes lexA) (edges lexA) (length (payloads lexA))"
    by (simp add: graph_ok_def lexA_def lexNodes_def lexEdges_def lexPayloads_def
      edge_window_ok_def payload_window_ok_def edge_window_def)
  show "graph_ok (predictNodes lexA) (predictEdges lexA) (length (predictPayloads lexA))"
    by (rule lexA_predict_graph_ok)
  show "\<forall>m\<in>set (payloads lexA).
       unat (LemmaID m) < length (LemmaPool lexA) \<and> unat (TagsID m) < length (tagsPool lexA)"
    by (simp add: lexA_def lexPayloads_def)
  show "\<forall>p\<in>set (predictPayloads lexA). unat (PTagsID p) < length (tagsPool lexA)"
    by (simp add: lexA_def lexPredictPayloads_def)
  show "\<forall>pID infos. paradigms lexA pID = Some infos \<longrightarrow>
       (\<forall>pInfo\<in>set infos. unat (StemNodeID pInfo) < length (nodes lexA))"
    by (auto simp add: lexA_def lexNodes_def split: if_splits)
  show "\<forall>pID lemmaID. paradigmToLemmaID lexA pID = Some lemmaID \<longrightarrow>
       unat lemmaID < length (LemmaPool lexA)"
    by (auto simp add: lexA_def split: if_splits)
qed

lemma lexA_ranked: "ranked (\<lambda>i. 10 - i) (nodes lexA) (edges lexA)"
  by (simp add: ranked_def lexA_def lexNodes_def lexEdges_def edge_window_def)

lemma lexA_fuel: "\<forall>i < length (nodes lexA). (\<lambda>i. 10 - i) i < 11"
  by auto


text \<open>
  C9. On a well-formed, acyclic lexicon and with enough recursion budget for its depth:
  whenever \<open>findBestPrediction\<close> returns a winning rule for the lower-cased word,
  \<open>ParsePredicted\<close> returns exactly one parse, for the word as given, whose tag string is
  the entry \<open>TagsID\<close> of that rule in the tag pool, whatever branch computes the lemma.
\<close>

theorem ParsePredicted_tags:
  assumes "sortContract pdq"
    and "lexicon_ok a"
    and "ranked rank (nodes a) (edges a)"
    and "\<forall>i < length (nodes a). rank i < fuel"
    and "findBestPrediction pdq a (strings_ToLower lower word) = Returns (Some best)"
  shows "\<exists>p. ParsePredicted lower pdq fuel a word = Returns [p] \<and> Word p = word \<and>
             Tags p = tagsPool a ! unat (PTagsID best)"
proof -
  let ?lw = "strings_ToLower lower word"
  have g: "graph_ok (predictNodes a) (predictEdges a) (length (predictPayloads a))"
    using assms(2) by (simp add: lexicon_ok_def)
  note bp = findBestPrediction_props[OF assms(1) g assms(5)]
  obtain fs where fs: "getFormsByParadigmID fuel a (PParadigmID best) = Returns fs"
    using getFormsByParadigmID_returns[OF assms(2-4)] by blast
  obtain l where l: "proportionalLemma a best ?lw fs = Returns l"
    using proportionalLemma_returns[OF assms(2) _ bp(2), of fs] bp(1) by auto
  have "unat (PTagsID best) < length (tagsPool a)"
    using bp(3) assms(2) by (auto simp: lexicon_ok_def)
  then have t: "index_at (tagsPool a) (PTagsID best) = Returns (tagsPool a ! unat (PTagsID best))"
    by (simp add: index_at_def)
  have "ParsePredicted lower pdq fuel a word
          = Returns [newParsed word l (tagsPool a ! unat (PTagsID best))]"
    by (simp add: ParsePredicted_def Let_def assms(5) fs l t)
  moreover have "Word (newParsed word l (tagsPool a ! unat (PTagsID best))) = word"
    and "Tags (newParsed word l (tagsPool a ! unat (PTagsID best))) = tagsPool a ! unat (PTagsID best)"
    by (simp_all add: newParsed_fixed)
  ultimately show ?thesis by simp
qed

text \<open>
  On the small lexicon: for XC the rule of the suffix c wins, the lemma falls back (the
  template word ab does not end with c), and the tag string is the rule's; for yb the
  rule of frequency 5 wins, the lemma is derived by substitution (the template word ab
  ends with b), and the tag string is the rule's again.
\<close>

theorem ParsePredicted_tags_witness:
  "sortContract (insertionSortLessFunc :: PredictionCandidate sorter) \<and>
   lexicon_ok lexA \<and> ranked (\<lambda>i. 10 - i) (nodes lexA) (edges lexA) \<and>
   findBestPrediction insertionSortLessFunc lexA (strings_ToLower asciiLower [88, 67])
     = Returns (Some \<lparr>Frequency = 1, PParadigmID = 1, FormIdx = 0, PTagsID = 1, SuffixLen = 1\<rparr>) \<and>
   map_outcome (map Tags) (ParsePredicted asciiLower insertionSortLessFunc 11 lexA [88, 67])
     = Returns [[1057, 1086, 1102, 1079]] \<and>
   findBestPrediction insertionSortLessFunc lexA (strings_ToLower asciiLower [121, 98])
     = Returns (Some \<lparr>Frequency = 5, PParadigmID = 1, FormIdx = 0, PTagsID = 1, SuffixLen = 1\<rparr>) \<and>
   map_outcome (map Tags) (ParsePredicted asciiLower insertionSortLessFunc 11 lexA [121, 98])
     = Returns [[1057, 1086, 1102, 1079]] \<and>
   map_outcome (map Lemma) (ParsePredicted asciiLower insertionSortLessFunc 11 lexA [121, 98])
     = Returns [[121, 98]]"
proof -
  have b: "findBestPrediction insertionSortLessFunc lexA (strings_ToLower asciiLower [88, 67])
     = Returns (Some \<lparr>Frequency = 1, PParadigmID = 1, FormIdx = 0, PTagsID = 1, SuffixLen = 1\<rparr>)"
    by code_simp
  have b2: "findBestPrediction insertionSortLessFunc lexA (strings_ToLower asciiLower [121, 98])
     = Returns (Some \<lparr>Frequency = 5, PParadigmID = 1, FormIdx = 0, PTagsID = 1, SuffixLen = 1\<rparr>)"
    by code_simp
  have l2: "map_outcome (map Lemma) (ParsePredicted asciiLower insertionSortLessFunc 11 lexA [121, 98])
     = Returns [[121, 98]]"
    by code_simp
  from ParsePredicted_tags[OF insertionSort_contract lexA_ok lexA_ranked lexA_fuel b]
  obtain p where p: "ParsePredicted asciiLower insertionSortLessFunc 11 lexA [88, 67] = Returns [p]"
    and t: "Tags p = tagsPool lexA !
              unat (PTagsID \<lparr>Frequency = 1, PParadigmID = 1, FormIdx = 0, PTagsID = 1, SuffixLen = 1\<rparr>)"
    by blast
  have "Tags p = [1057, 1086, 1102, 1079]" using t by (simp add: lexA_def)
  then have r1: "map_outcome (map Tags) (ParsePredicted asciiLower insertionSortLessFunc 11 lexA [88, 67])
     = Returns [[1057, 1086, 1102, 1079]]"
    using p by simp
  from ParsePredicted_tags[OF insertionSort_contract lexA_ok lexA_ranked lexA_fuel b2]
  obtain q where q: "ParsePredicted asciiLower insertionSortLessFunc 11 lexA [121, 98] = Returns [q]"
    and t2: "Tags q = tagsPool lexA !
              unat (PTagsID \<lparr>Frequency = 5, PParadigmID = 1, FormIdx = 0, PTagsID = 1, SuffixLen = 1\<rparr>)"
    by blast
  have "Tags q = [1057, 1086, 1102, 1079]" using t2 by (simp add: lexA_def)
  then have r2: "map_outcome (map Tags) (ParsePredicted asciiLower insertionSortLessFunc 11 lexA [121, 98])
     = Returns [[1057, 1086, 1102, 1079]]"
    using q by simp
  show ?thesis using insertionSort_contract lexA_ok lexA_ranked b r1 b2 r2 l2 by simp
qed

subsection \<open>C3: the fallback lemma of a predicted parse\<close>

lemma proportionalLemma_unsafe:
  assumes ok: "lexicon_ok a"
    and s1: "0 \<le> SuffixLen best" and s2: "SuffixLen best \<le> int (length lw)"
    and u: "substitutionUnsafe a best lw forms"
  shows "proportionalLemma a best lw forms = Returns lw"
proof (cases "paradigmToLemmaID a (PParadigmID best)")
  case None
  then show ?thesis by (simp add: proportionalLemma_def)
next
  case (Some lid)
  then have "unat lid < length (LemmaPool a)" using ok by (auto simp: lexicon_ok_def)
  then have ix: "index_at (LemmaPool a) lid = Returns (LemmaPool a ! unat lid)"
    by (simp add: index_at_def)
  have d: "nat (int (length lw) - SuffixLen best) = length lw - nat (SuffixLen best)"
    using s1 s2 by simp
  have rf: "runes_from lw (int (length lw) - SuffixLen best)
            = Returns (drop (length lw - nat (SuffixLen best)) lw)"
    using s1 s2 by (simp add: runes_from_def d)
  have le: "length forms \<le> unat (FormIdx best) \<longleftrightarrow> int (length forms) \<le> uint (FormIdx best)"
    by (simp only: uint_nat of_nat_le_iff)
  show ?thesis
    using u
    by (auto simp add: proportionalLemma_def substitutionUnsafe_def Some Let_def ix rf le)
qed

text \<open>
  C3, as the code has it. On a well-formed, acyclic lexicon and with enough recursion
  budget for its depth: whenever \<open>findBestPrediction\<close> yields a winning rule for the
  lower-cased word, the form list of the template paradigm is computed, and if the
  analogical substitution is unsafe for it, \<open>ParsePredicted\<close> returns exactly one parse,
  whose lemma is the lower-cased input word (and whose word is the input as given, with
  the tag string of the rule).
\<close>

theorem ParsePredicted_unsafe_fallback:
  assumes "sortContract pdq"
    and "lexicon_ok a"
    and "ranked rank (nodes a) (edges a)"
    and "\<forall>i < length (nodes a). rank i < fuel"
    and "findBestPrediction pdq a (strings_ToLower lower word) = Returns (Some best)"
  shows "\<exists>templateForms.
           getFormsByParadigmID fuel a (PParadigmID best) = Returns templateForms \<and>
           (substitutionUnsafe a best (strings_ToLower lower word) templateForms \<longrightarrow>
              ParsePredicted lower pdq fuel a word
                = Returns [newParsed word (strings_ToLower lower word)
                             (tagsPool a ! unat (PTagsID best))])"
proof -
  let ?lw = "strings_ToLower lower word"
  have g: "graph_ok (predictNodes a) (predictEdges a) (length (predictPayloads a))"
    using assms(2) by (simp add: lexicon_ok_def)
  note bp = findBestPrediction_props[OF assms(1) g assms(5)]
  obtain fs where fs: "getFormsByParadigmID fuel a (PParadigmID best) = Returns fs"
    using getFormsByParadigmID_returns[OF assms(2-4)] by blast
  have "unat (PTagsID best) < length (tagsPool a)"
    using bp(3) assms(2) by (auto simp: lexicon_ok_def)
  then have t: "index_at (tagsPool a) (PTagsID best) = Returns (tagsPool a ! unat (PTagsID best))"
    by (simp add: index_at_def)
  have "ParsePredicted lower pdq fuel a word
          = Returns [newParsed word ?lw (tagsPool a ! unat (PTagsID best))]"
    if u: "substitutionUnsafe a best ?lw fs"
  proof -
    have l: "proportionalLemma a best ?lw fs = Returns ?lw"
      by (rule proportionalLemma_unsafe[OF assms(2) _ bp(2) u]) (use bp(1) in simp)
    show ?thesis
      by (simp add: ParsePredicted_def Let_def assms(5) fs l t)
  qed
  then show ?thesis using fs by blast
qed

lemma lexA_forms_1: "getFormsByParadigmID 11 lexA 1 = Returns [[97, 98], [97, 99]]"
  by code_simp

theorem ParsePredicted_unsafe_fallback_witness:
  "sortContract (insertionSortLessFunc :: PredictionCandidate sorter) \<and>
   lexicon_ok lexA \<and> ranked (\<lambda>i. 10 - i) (nodes lexA) (edges lexA) \<and>
   findBestPrediction insertionSortLessFunc lexA (strings_ToLower asciiLower [88, 99])
     = Returns (Some \<lparr>Frequency = 1, PParadigmID = 1, FormIdx = 0, PTagsID = 1, SuffixLen = 1\<rparr>) \<and>
   getFormsByParadigmID 11 lexA 1 = Returns [[97, 98], [97, 99]] \<and>
   substitutionUnsafe lexA
     \<lparr>Frequency = 1, PParadigmID = 1, FormIdx = 0, PTagsID = 1, SuffixLen = 1\<rparr>
     (strings_ToLower asciiLower [88, 99]) [[97, 98], [97, 99]] \<and>
   ParsePredicted asciiLower insertionSortLessFunc 11 lexA [88, 99]
     = Returns [newParsed [88, 99] [120, 99] [1057, 1086, 1102, 1079]]"
proof -
  let ?best = "\<lparr>Frequency = 1, PParadigmID = 1, FormIdx = 0, PTagsID = 1, SuffixLen = 1\<rparr>"
  have b: "findBestPrediction insertionSortLessFunc lexA (strings_ToLower asciiLower [88, 99])
             = Returns (Some ?best)"
    by code_simp
  have f: "getFormsByParadigmID 11 lexA (PParadigmID ?best) = Returns [[97, 98], [97, 99]]"
    using lexA_forms_1 by simp
  have u: "substitutionUnsafe lexA ?best (strings_ToLower asciiLower [88, 99]) [[97, 98], [97, 99]]"
    by code_simp
  have lw: "strings_ToLower asciiLower [88, 99] = [120, 99]"
    by (simp add: strings_ToLower_def asciiLower_def)
  have tg: "tagsPool lexA ! unat (PTagsID ?best) = [1057, 1086, 1102, 1079]"
    by (simp add: lexA_def)
  from ParsePredicted_unsafe_fallback[OF insertionSort_contract lexA_ok lexA_ranked lexA_fuel b]
  obtain tf where tf: "getFormsByParadigmID 11 lexA (PParadigmID ?best) = Returns tf"
    and imp: "substitutionUnsafe lexA ?best (strings_ToLower asciiLower [88, 99]) tf \<longrightarrow>
              ParsePredicted asciiLower insertionSortLessFunc 11 lexA [88, 99]
                = Returns [newParsed [88, 99] (strings_ToLower asciiLower [88, 99])
                             (tagsPool lexA ! unat (PTagsID ?best))]"
    by blast
  have "tf = [[97, 98], [97, 99]]" using tf f by simp
  then have "ParsePredicted asciiLower insertionSortLessFunc 11 lexA [88, 99]
                = Returns [newParsed [88, 99] (strings_ToLower asciiLower [88, 99])
                             (tagsPool lexA ! unat (PTagsID ?best))]"
    using imp u by simp
  then have "ParsePredicted asciiLower insertionSortLessFunc 11 lexA [88, 99]
     = Returns [newParsed [88, 99] [120, 99] [1057, 1086, 1102, 1079]]"
    by (simp only: lw tg)
  then show ?thesis using insertionSort_contract lexA_ok lexA_ranked b lexA_forms_1 u by simp
qed

text \<open>
  The claim as stated fails for a word with a capital letter: on XC the rule found for
  the suffix c has the template word ab, which does not end with c, and the lemma of the
  parse is the lower-cased xc, not the input XC. (There is one candidate only, so the
  sort of the candidates is the insertion sort.)
\<close>

theorem ParsePredicted_fallback_lemma_counterexample:
  "findBestPrediction insertionSortLessFunc lexA (strings_ToLower asciiLower [88, 67])
     = Returns (Some \<lparr>Frequency = 1, PParadigmID = 1, FormIdx = 0, PTagsID = 1, SuffixLen = 1\<rparr>) \<and>
   getFormsByParadigmID 11 lexA 1 = Returns [[97, 98], [97, 99]] \<and>
   substitutionUnsafe lexA
     \<lparr>Frequency = 1, PParadigmID = 1, FormIdx = 0, PTagsID = 1, SuffixLen = 1\<rparr>
     (strings_ToLower asciiLower [88, 67]) [[97, 98], [97, 99]] \<and>
   map_outcome (map Lemma) (ParsePredicted asciiLower insertionSortLessFunc 11 lexA [88, 67])
     = Returns [[120, 99]] \<and>
   map_outcome (map Lemma) (ParsePredicted asciiLower insertionSortLessFunc 11 lexA [88, 67])
     \<noteq> Returns [[88, 67]]"
proof -
  have b: "findBestPrediction insertionSortLessFunc lexA (strings_ToLower asciiLower [88, 67])
     = Returns (Some \<lparr>Frequency = 1, PParadigmID = 1, FormIdx = 0, PTagsID = 1, SuffixLen = 1\<rparr>)"
    by code_simp
  have u: "substitutionUnsafe lexA
     \<lparr>Frequency = 1, PParadigmID = 1, FormIdx = 0, PTagsID = 1, SuffixLen = 1\<rparr>
     (strings_ToLower asciiLower [88, 67]) [[97, 98], [97, 99]]"
    by code_simp
  have l: "map_outcome (map Lemma) (ParsePredicted asciiLower insertionSortLessFunc 11 lexA [88, 67])
     = Returns [[120, 99]]"
    by code_simp
  show ?thesis using b lexA_forms_1 u l by simp
qed

end
